theory Spec2Isabelle
  imports Main "HOL-Library.Word"
begin

unbundle bit_operations_syntax

section \<open>XDR marshalling helper (\<^verbatim>\<open>xdrpp/marshal.cc\<close>)\<close>

text \<open>
  \<^verbatim>\<open>marshal_base::put_bytes\<close> and \<^verbatim>\<open>marshal_base::get_bytes\<close> copy \<open>len\<close> bytes and
  then handle the padding up to a multiple of four. Memory is a map from byte
  addresses to bytes and the cursor \<^verbatim>\<open>pr\<close> is a byte address; neither function checks
  any bound, so none is modelled. \<^verbatim>\<open>len\<close> is a \<^verbatim>\<open>size_t\<close>: it is a \<open>nat\<close> here, and
  \<^verbatim>\<open>len & 3\<close> is the bitwise AND on \<open>nat\<close> (a wrap of \<^verbatim>\<open>++len\<close> at \<open>2^64\<close> would give 0,
  which ends the loop exactly as \<open>2^64 AND 3 = 0\<close> does).
\<close>

type_synonym byte = "8 word"
type_synonym memory = "nat \<Rightarrow> byte"

datatype xdr_error = xdr_should_be_zero

text \<open>\<^verbatim>\<open>std::memcpy(p, buf, len)\<close> into memory, and out of it.\<close>

fun memcpy_to :: "memory \<Rightarrow> nat \<Rightarrow> byte list \<Rightarrow> memory" where
  "memcpy_to m p [] = m"
| "memcpy_to m p (b # bs) = memcpy_to (m(p := b)) (Suc p) bs"

definition memcpy_from :: "memory \<Rightarrow> nat \<Rightarrow> nat \<Rightarrow> byte list" where
  "memcpy_from m p len = map m [p ..< p + len]"

text \<open>The padding loops: \<^verbatim>\<open>while (len & 3) { ++len; *p++ = 0; }\<close> and its reading twin,
  which throws \<^verbatim>\<open>xdr_should_be_zero\<close> at the first non-zero pad byte.\<close>

function put_pad :: "memory \<Rightarrow> nat \<Rightarrow> nat \<Rightarrow> memory \<times> nat" where
  "put_pad m p len = (if len AND 3 \<noteq> 0 then put_pad (m(p := 0)) (p + 1) (len + 1) else (m, p))"
  by pat_completeness auto
termination
proof (relation "measure (\<lambda>(m, p, len). (4 - len mod 4) mod 4)", goal_cases)
  case 1
  show ?case by simp
next
  case (2 m p len)
  have "len AND 3 = len mod 4"
    using take_bit_eq_mask[of 2 len] by (simp add: take_bit_eq_mod mask_eq_exp_minus_1)
  with 2 show ?case by (auto simp: mod_Suc)
qed

function get_pad :: "memory \<Rightarrow> nat \<Rightarrow> nat \<Rightarrow> xdr_error + nat" where
  "get_pad m p len =
     (if len AND 3 \<noteq> 0
      then (if m p \<noteq> 0 then Inl xdr_should_be_zero else get_pad m (p + 1) (len + 1))
      else Inr p)"
  by pat_completeness auto
termination
proof (relation "measure (\<lambda>(m, p, len). (4 - len mod 4) mod 4)", goal_cases)
  case 1
  show ?case by simp
next
  case (2 m p len)
  have "len AND 3 = len mod 4"
    using take_bit_eq_mask[of 2 len] by (simp add: take_bit_eq_mod mask_eq_exp_minus_1)
  with 2 show ?case by (auto simp: mod_Suc)
qed

declare put_pad.simps [simp del] get_pad.simps [simp del]

definition put_bytes :: "memory \<Rightarrow> nat \<Rightarrow> byte list \<Rightarrow> memory \<times> nat" where
  "put_bytes m pr buf =
     (let m1 = memcpy_to m pr buf;
          p = pr + length buf
      in put_pad m1 p (length buf))"

definition get_bytes :: "memory \<Rightarrow> nat \<Rightarrow> nat \<Rightarrow> xdr_error + (byte list \<times> nat)" where
  "get_bytes m pr len =
     (let buf = memcpy_from m pr len;
          p = pr + len
      in case get_pad m p len of
           Inl e \<Rightarrow> Inl e
         | Inr p' \<Rightarrow> Inr (buf, p'))"

section \<open>The event loop (\<^verbatim>\<open>xmsg/pollset.cc\<close>): data\<close>

text \<open>
  A callback (\<^verbatim>\<open>cb_t\<close>, a \<^verbatim>\<open>std::function<void()>\<close>) is a value of an arbitrary type
  \<open>'cb\<close>; \<open>None\<close> is the empty function (\<^verbatim>\<open>nullptr\<close>). What a callback does when it is
  called is given by a runner, a parameter of every function that calls one.
\<close>

text \<open>\<^verbatim>\<open>struct pollfd\<close>; \<^verbatim>\<open>events\<close> and \<^verbatim>\<open>revents\<close> are \<^verbatim>\<open>short\<close>.\<close>

record pollfd =
  fd :: int
  events :: "16 word"
  revents :: "16 word"

text \<open>The bits of \<^verbatim>\<open><poll.h>\<close> (their Linux values).\<close>

definition POLLIN :: "16 word" where "POLLIN = 0x001"
definition POLLOUT :: "16 word" where "POLLOUT = 0x004"

text \<open>
  Modelled from the spec: the flags of \<^verbatim>\<open>op_t\<close> (``mode flags are composable:
  {Read, Write} \<open>\<times>\<close> {Persistent, OneShot}''). The enumeration is declared in
  \<^verbatim>\<open>xdrc/pollset.h\<close>; the three flags are distinct bits, here \<open>1\<close>, \<open>2\<close> and \<open>4\<close>.
\<close>

definition kReadFlag :: nat where "kReadFlag = 1"
definition kWriteFlag :: nat where "kWriteFlag = 2"
definition kOnceFlag :: nat where "kOnceFlag = 4"

text \<open>
  Modelled from the spec: \<^verbatim>\<open>struct fd_state\<close>, the descriptor record (``an index into
  a parallel readiness-request array, a read-callback slot, a write-callback slot,
  and a one-shot flag for each''), declared in \<^verbatim>\<open>xdrc/pollset.h\<close>. A record that
  \<^verbatim>\<open>state_[fd]\<close> creates has a negative index (the test \<^verbatim>\<open>fs.idx < 0\<close> in
  \<^verbatim>\<open>fd_cb_helper\<close> recognises it) and no callbacks.
\<close>

record 'cb fd_state =
  rcb :: "'cb option"
  wcb :: "'cb option"
  idx :: int
  roneshot :: bool
  woneshot :: bool

definition new_fd_state :: "'cb fd_state" where
  "new_fd_state = \<lparr>rcb = None, wcb = None, idx = - 1, roneshot = False, woneshot = False\<rparr>"

text \<open>
  Modelled from the spec: \<^verbatim>\<open>wake_type\<close>, the byte written to the self-pipe; a signal
  wake is ``a distinguished byte''. The enumeration is declared in
  \<^verbatim>\<open>xdrc/pollset.h\<close>.
\<close>

datatype wake_type = Normal | Signal

text \<open>
  An iterator into \<^verbatim>\<open>time_cbs_\<close> (a \<^verbatim>\<open>std::multimap<std::int64_t, cb_t>\<close>) is
  \<^verbatim>\<open>end()\<close> or designates a node. A node keeps its identity while other nodes come
  and go, so every record of the queue carries a node number; the queue itself is
  the list of records in iteration order (ascending deadline, equal deadlines in
  insertion order).
\<close>

datatype iter = End | Node nat

type_synonym 'cb timer = "64 word \<times> nat \<times> 'cb"

text \<open>
  The members of \<^verbatim>\<open>class pollset\<close> that the functions below touch, with the types
  their uses in \<^verbatim>\<open>pollset.cc\<close> show. Four fields are not members. \<open>pipe_bytes\<close> is
  what has been written to the self-pipe and not read yet, and \<open>pipe_capacity\<close> is
  the number of bytes that the kernel lets the pipe hold. \<open>next_node\<close> numbers the
  next multimap node to be allocated. \<open>pollfds_storage\<close> names the storage that
  \<^verbatim>\<open>pollfds_\<close> occupies: \<^verbatim>\<open>resize\<close> to a larger size may move the elements to new
  storage (whether it does depends on the capacity, which is not kept here, so that
  every growth counts as a move), and a reference to an element that was taken
  before the move dangles after it.
\<close>

record 'cb pollset =
  selfpipe :: "int \<times> int"
  pipe_bytes :: "wake_type list"
  pipe_capacity :: nat
  pollfds :: "pollfd list"
  pollfds_storage :: nat
  state :: "int \<rightharpoonup> 'cb fd_state"
  time_cbs :: "'cb timer list"
  next_node :: nat
  async_cbs :: "'cb list"
  async_pending :: bool
  nasync :: nat
  signal_pending :: bool
  signal_cbs :: "nat \<rightharpoonup> 'cb"

text \<open>
  How a call ends when it does not return: a callback threw, \<^verbatim>\<open>at()\<close> threw
  \<^verbatim>\<open>std::out_of_range\<close>, the process was ended by a failed \<^verbatim>\<open>assert\<close> or by
  \<^verbatim>\<open>std::terminate\<close>, a system call failed (\<^verbatim>\<open>std::system_error\<close>), the process was
  ended by the default action of a signal that it raised, or the behaviour is
  undefined (an invalid iterator or a dangling reference was used, a position
  outside a vector was written, a signed subtraction overflowed).
\<close>

datatype 'x stop = Thrown 'x | OutOfRange | Aborted | SystemError | Killed | Undefined

text \<open>
  A runner executes a callback on the program's state: the state outside the
  pollset (\<open>'w\<close>) and the pollset. It returns the new state and \<open>Some x\<close> when the
  callback threw \<open>x\<close>.
\<close>

type_synonym ('cb, 'w, 'x) runner =
  "'cb \<Rightarrow> 'w \<times> 'cb pollset \<Rightarrow> 'x option \<times> ('w \<times> 'cb pollset)"

text \<open>
  \<^verbatim>\<open>pollset::wake\<close>: \<^verbatim>\<open>write(selfpipe_[1], &wt, 1)\<close>, whose result is not looked at.
  The write end is non-blocking, so the byte is lost when the pipe is full.
\<close>

definition wake :: "wake_type \<Rightarrow> 'cb pollset \<Rightarrow> 'cb pollset" where
  "wake wt ps =
     (if length (pipe_bytes ps) < pipe_capacity ps
      then ps\<lparr>pipe_bytes := pipe_bytes ps @ [wt]\<rparr>
      else ps)"

text \<open>
  A runner that also keeps a trace: every call of a callback is written down with
  the pollset that the callback was handed.
\<close>

definition traced ::
    "('cb, 'w, 'x) runner \<Rightarrow> ('cb, 'w \<times> ('cb \<times> 'cb pollset) list, 'x) runner" where
  "traced exec cb wp =
     (case wp of ((w, tr), ps) \<Rightarrow>
        (case exec cb (w, ps) of (r, (w', ps')) \<Rightarrow> (r, ((w', tr @ [(cb, ps)]), ps'))))"

section \<open>The event loop: timer queue\<close>

text \<open>
  The operations of \<^verbatim>\<open>std::multimap\<close> that the code uses. Keys are \<^verbatim>\<open>std::int64_t\<close>
  and compare as signed numbers; \<^verbatim>\<open>emplace\<close> puts the new record after the records with
  an equal key.
\<close>

fun mm_emplace :: "64 word \<Rightarrow> nat \<Rightarrow> 'cb \<Rightarrow> 'cb timer list \<Rightarrow> 'cb timer list" where
  "mm_emplace k n c [] = [(k, n, c)]"
| "mm_emplace k n c ((k', n', c') # q) =
     (if sint k' \<le> sint k then (k', n', c') # mm_emplace k n c q
      else (k, n, c) # (k', n', c') # q)"

definition mm_begin :: "'cb timer list \<Rightarrow> iter" where
  "mm_begin q = (case q of [] \<Rightarrow> End | (k, n, c) # _ \<Rightarrow> Node n)"

text \<open>Dereferencing an iterator: the record of node \<open>n\<close>, if the node is in the map.\<close>

fun mm_deref :: "nat \<Rightarrow> 'cb timer list \<Rightarrow> (64 word \<times> 'cb) option" where
  "mm_deref n [] = None"
| "mm_deref n ((k, n', c) # q) = (if n' = n then Some (k, c) else mm_deref n q)"

text \<open>\<^verbatim>\<open>i++\<close>: the iterator after node \<open>n\<close>.\<close>

fun mm_next :: "nat \<Rightarrow> 'cb timer list \<Rightarrow> iter" where
  "mm_next n [] = End"
| "mm_next n ((k, n', c) # q) = (if n' = n then mm_begin q else mm_next n q)"

fun mm_erase :: "nat \<Rightarrow> 'cb timer list \<Rightarrow> 'cb timer list" where
  "mm_erase n [] = []"
| "mm_erase n ((k, n', c) # q) = (if n' = n then q else (k, n', c) # mm_erase n q)"

text \<open>\<^verbatim>\<open>pollset::pending\<close>.\<close>

definition pending :: "'cb pollset \<Rightarrow> bool" where
  "pending ps \<longleftrightarrow> length (pollfds ps) > 1 \<or> nasync ps \<noteq> 0 \<or> time_cbs ps \<noteq> []"

text \<open>
  \<^verbatim>\<open>pollset::next_timeout\<close>. \<open>now\<close> is what \<^verbatim>\<open>now_ms()\<close> returns; \<^verbatim>\<open>ms\<close> and the result
  are \<^verbatim>\<open>int\<close>, \<^verbatim>\<open>now\<close> and \<^verbatim>\<open>wait\<close> are \<^verbatim>\<open>int64_t\<close>. The subtraction is a signed one:
  where its result is not an \<^verbatim>\<open>int64_t\<close> the behaviour is undefined.
\<close>

definition INT_MAX :: "64 word" where "INT_MAX = 0x7FFFFFFF"

definition next_timeout :: "64 word \<Rightarrow> 32 word \<Rightarrow> 'cb pollset \<Rightarrow> 'x stop + 32 word" where
  "next_timeout now ms ps =
     (case time_cbs ps of
        [] \<Rightarrow> Inr ms
      | (first, n, c) # _ \<Rightarrow>
          if sint now \<ge> sint first then Inr 0
          else if sint first - sint now \<ge> 2 ^ 63 then Inl Undefined
          else
            let wait = first - now;
                wait = (if sint wait > sint INT_MAX then INT_MAX else wait)
            in if sint ms \<ge> 0 \<and> sint ms \<le> sint wait then Inr ms
               else Inr (ucast wait))"

text \<open>
  Modelled from the spec: the null \<^verbatim>\<open>Timeout\<close> handle (``cancellation transitions it
  to null''). \<^verbatim>\<open>class Timeout\<close>, \<^verbatim>\<open>timeout_null\<close> and \<^verbatim>\<open>timeout_is_not_null\<close> are declared
  in \<^verbatim>\<open>xdrc/pollset.h\<close>; \<^verbatim>\<open>pollset.cc\<close> shows that a handle wraps a multimap iterator
  \<^verbatim>\<open>i_\<close>. The null handle is the one whose iterator is \<^verbatim>\<open>end()\<close>.
\<close>

definition timeout_null :: iter where
  "timeout_null = End"

definition timeout_is_not_null :: "iter \<Rightarrow> bool" where
  "timeout_is_not_null t \<longleftrightarrow> t \<noteq> End"

text \<open>
  \<^verbatim>\<open>pollset::timeout_cancel\<close> and \<^verbatim>\<open>pollset::timeout_reschedule_at\<close>. The handle is
  passed by reference, so both return it with the pollset. \<^verbatim>\<open>i->first\<close> and
  \<^verbatim>\<open>i->second\<close> dereference the iterator: that is undefined for \<^verbatim>\<open>end()\<close> and for a
  node that is no longer in the map.
\<close>

definition timeout_cancel :: "iter \<Rightarrow> 'cb pollset \<Rightarrow> 'x stop + ('cb pollset \<times> iter)" where
  "timeout_cancel t ps =
     (if timeout_is_not_null t then
        (case t of
           End \<Rightarrow> Inl Undefined
         | Node n \<Rightarrow>
             (case mm_deref n (time_cbs ps) of
                None \<Rightarrow> Inl Undefined
              | Some (k, c) \<Rightarrow>
                  if (\<forall>(k', n', c') \<in> set (time_cbs ps). k' \<noteq> k) then Inl Aborted
                  else Inr (ps\<lparr>time_cbs := mm_erase n (time_cbs ps)\<rparr>, timeout_null)))
      else Inr (ps, t))"

definition timeout_reschedule_at ::
    "iter \<Rightarrow> 64 word \<Rightarrow> 'cb pollset \<Rightarrow> 'x stop + ('cb pollset \<times> iter)" where
  "timeout_reschedule_at t ms ps =
     (case t of
        End \<Rightarrow> Inl Undefined
      | Node i \<Rightarrow>
          (case mm_deref i (time_cbs ps) of
             None \<Rightarrow> Inl Undefined
           | Some (k, c) \<Rightarrow>
               let n = next_node ps;
                   q = mm_emplace ms n c (time_cbs ps)
               in Inr (ps\<lparr>time_cbs := mm_erase i q, next_node := Suc n\<rparr>, Node n)))"

text \<open>
  \<^verbatim>\<open>pollset::run_timeouts\<close>. The loop runs as long as callbacks keep due records in
  front of the iterator, so it takes fuel: \<open>None\<close> is a loop that has not ended
  when the fuel has. \<^verbatim>\<open>time_cbs_.erase(i++)\<close> moves \<open>i\<close> to the next node and erases
  the node it was at; both need that node to be in the map still.
\<close>

fun run_timeouts_loop ::
    "nat \<Rightarrow> ('cb, 'w, 'x) runner \<Rightarrow> 64 word \<Rightarrow> iter \<Rightarrow> 'w \<times> 'cb pollset
      \<Rightarrow> ('x stop option \<times> ('w \<times> 'cb pollset)) option" where
  "run_timeouts_loop 0 exec now i wp = None"
| "run_timeouts_loop (Suc fuel) exec now End wp = Some (None, wp)"
| "run_timeouts_loop (Suc fuel) exec now (Node n) wp =
     (case mm_deref n (time_cbs (snd wp)) of
        None \<Rightarrow> Some (Some Undefined, wp)
      | Some (first, cb) \<Rightarrow>
          if sint now \<ge> sint first then
            (case exec cb wp of
               (Some x, wp') \<Rightarrow> Some (Some (Thrown x), wp')
             | (None, (w', ps')) \<Rightarrow>
                 (case mm_deref n (time_cbs ps') of
                    None \<Rightarrow> Some (Some Undefined, (w', ps'))
                  | Some _ \<Rightarrow>
                      run_timeouts_loop fuel exec now (mm_next n (time_cbs ps'))
                        (w', ps'\<lparr>time_cbs := mm_erase n (time_cbs ps')\<rparr>)))
          else Some (None, wp))"

definition run_timeouts ::
    "nat \<Rightarrow> ('cb, 'w, 'x) runner \<Rightarrow> 64 word \<Rightarrow> 'w \<times> 'cb pollset
      \<Rightarrow> ('x stop option \<times> ('w \<times> 'cb pollset)) option" where
  "run_timeouts fuel exec now wp =
     (let i = mm_begin (time_cbs (snd wp))
      in if i \<noteq> End then run_timeouts_loop fuel exec now i wp else Some (None, wp))"

section \<open>The event loop: descriptor registry\<close>

text \<open>
  \<^verbatim>\<open>pollset::fd_cb_helper\<close> returns a reference to one of the two callbacks of the
  descriptor's record; \<open>dir\<close> says which one. For a new record
  \<^verbatim>\<open>pollfds_.resize(fs.idx + 1)\<close> makes the array one slot longer, which gives it new
  storage.
\<close>

datatype dir = Rd | Wr

definition set_events :: "nat \<Rightarrow> 16 word \<Rightarrow> pollfd list \<Rightarrow> pollfd list" where
  "set_events i ev pfds = pfds[i := (pfds ! i)\<lparr>events := ev\<rparr>]"

definition fd_cb_helper :: "int \<Rightarrow> nat \<Rightarrow> 'cb pollset \<Rightarrow> 'x stop + ('cb pollset \<times> dir)" where
  "fd_cb_helper f op ps =
     (let fs = (case state ps f of None \<Rightarrow> new_fd_state | Some fs \<Rightarrow> fs) in
      case
        (if idx fs < 0 then
           Inr (fs\<lparr>idx := int (length (pollfds ps))\<rparr>,
                pollfds ps @ [\<lparr>fd = f, events = 0, revents = 0\<rparr>],
                Suc (pollfds_storage ps))
         else if \<not> nat (idx fs) < length (pollfds ps) then Inl OutOfRange
         else if fd (pollfds ps ! nat (idx fs)) \<noteq> f then Inl Aborted
         else Inr (fs, pollfds ps, pollfds_storage ps))
      of
        Inl e \<Rightarrow> Inl e
      | Inr (fs, pfds, st) \<Rightarrow>
          let i = nat (idx fs) in
          if op AND kReadFlag \<noteq> 0 then
            if op AND kWriteFlag \<noteq> 0 then Inl Aborted
            else Inr (ps\<lparr>pollfds := set_events i (events (pfds ! i) OR POLLIN) pfds,
                         pollfds_storage := st,
                         state := (state ps)(f \<mapsto> fs\<lparr>roneshot := (op AND kOnceFlag \<noteq> 0)\<rparr>)\<rparr>,
                      Rd)
          else if op AND kWriteFlag \<noteq> 0 then
            Inr (ps\<lparr>pollfds := set_events i (events (pfds ! i) OR POLLOUT) pfds,
                      pollfds_storage := st,
                      state := (state ps)(f \<mapsto> fs\<lparr>woneshot := (op AND kOnceFlag \<noteq> 0)\<rparr>)\<rparr>,
                 Wr)
          else Inl Aborted)"

text \<open>\<^verbatim>\<open>pollset::fd_cb(int fd, op_t op, std::nullptr_t)\<close>: unregister.\<close>

definition fd_cb_null :: "int \<Rightarrow> nat \<Rightarrow> 'cb pollset \<Rightarrow> 'x stop + 'cb pollset" where
  "fd_cb_null f op ps =
     (case state ps f of
        None \<Rightarrow> Inr ps
      | Some fs \<Rightarrow>
          if idx fs < 0 \<or> \<not> nat (idx fs) < length (pollfds ps) then Inl OutOfRange
          else
            let i = nat (idx fs);
                ps1 = (if op AND kReadFlag \<noteq> 0
                       then ps\<lparr>pollfds := set_events i (events (pollfds ps ! i) AND NOT POLLIN)
                                              (pollfds ps),
                               state := (state ps)(f \<mapsto> fs\<lparr>rcb := None\<rparr>)\<rparr>
                       else ps);
                ps2 = (if op AND kWriteFlag \<noteq> 0
                       then ps1\<lparr>pollfds := set_events i (events (pollfds ps1 ! i) AND NOT POLLOUT)
                                               (pollfds ps1),
                                state := (state ps1)(f := map_option (\<lambda>fs. fs\<lparr>wcb := None\<rparr>)
                                                              (state ps1 f))\<rparr>
                       else ps1)
            in Inr ps2)"

text \<open>
  Modelled from the spec: \<^emph>\<open>register(fd, mode, callback)\<close>, the \<^verbatim>\<open>fd_cb\<close> that takes a
  callback. It is a template of \<^verbatim>\<open>xdrc/pollset.h\<close> (the constructor in \<^verbatim>\<open>pollset.cc\<close>
  calls it): it stores the callback through the reference that \<open>fd_cb_helper\<close>
  returns (``re-registering the same direction replaces the stored callback and
  one-shot flag''), and registering an empty callback unregisters.
\<close>

definition fd_cb :: "int \<Rightarrow> nat \<Rightarrow> 'cb option \<Rightarrow> 'cb pollset \<Rightarrow> 'x stop + 'cb pollset" where
  "fd_cb f op cb ps =
     (case fd_cb_helper f op ps of
        Inl e \<Rightarrow> Inl e
      | Inr (ps1, d) \<Rightarrow>
          let upd = (case d of Rd \<Rightarrow> (\<lambda>fs. fs\<lparr>rcb := cb\<rparr>) | Wr \<Rightarrow> (\<lambda>fs. fs\<lparr>wcb := cb\<rparr>));
              ps2 = ps1\<lparr>state := (state ps1)(f := map_option upd (state ps1 f))\<rparr>
          in if cb = None then fd_cb_null f op ps2 else Inr ps2)"

text \<open>
  \<^verbatim>\<open>pollset::consolidate\<close>. First loop: pop the last slot while its interest mask is
  empty, erasing the record of its descriptor.
\<close>

function consolidate_tail :: "'cb pollset \<Rightarrow> 'cb pollset" where
  "consolidate_tail ps =
     (if pollfds ps \<noteq> [] \<and> events (last (pollfds ps)) = 0
      then consolidate_tail
             (ps\<lparr>state := (state ps)(fd (last (pollfds ps)) := None),
                 pollfds := butlast (pollfds ps)\<rparr>)
      else ps)"
  by pat_completeness auto
termination
  by (relation "measure (\<lambda>ps. length (pollfds ps))") (auto simp: length_greater_0_conv)

declare consolidate_tail.simps [simp del]

text \<open>
  Second loop: \<^verbatim>\<open>for (i -= 2; i >= 0; --i)\<close>. The first argument is \<open>i + 1\<close>, so \<open>0\<close>
  is the end of the loop.
\<close>

fun consolidate_scan :: "nat \<Rightarrow> 'cb pollset \<Rightarrow> 'x stop + 'cb pollset" where
  "consolidate_scan 0 ps = Inr ps"
| "consolidate_scan (Suc i) ps =
     (if \<not> i < length (pollfds ps) then Inl OutOfRange
      else if events (pollfds ps ! i) \<noteq> 0 then consolidate_scan i ps
      else
        let ps1 = ps\<lparr>state := (state ps)(fd (pollfds ps ! i) := None)\<rparr>;
            pfd = last (pollfds ps1);
            ps2 = ps1\<lparr>pollfds := (pollfds ps1)[i := pfd]\<rparr>
        in case state ps2 (fd pfd) of
             None \<Rightarrow> Inl OutOfRange
           | Some fs \<Rightarrow>
               consolidate_scan i
                 (ps2\<lparr>state := (state ps2)(fd pfd \<mapsto> fs\<lparr>idx := int i\<rparr>),
                      pollfds := butlast (pollfds ps2)\<rparr>))"

definition consolidate :: "'cb pollset \<Rightarrow> 'x stop + 'cb pollset" where
  "consolidate ps =
     (let ps1 = consolidate_tail ps;
          i = length (pollfds ps1)
      in if i < 2 then Inr ps1 else consolidate_scan (i - 1) ps1)"

text \<open>
  The constructor: \<^verbatim>\<open>pipe\<close> gives the two descriptors, and the read end is
  registered with a persistent read callback (\<open>drain\<close>, which runs
  \<^verbatim>\<open>run_pending_asyncs\<close>). \<^verbatim>\<open>Read\<close> is the mode with the read flag alone. A pipe
  holds 65536 bytes (the Linux default).
\<close>

definition empty_pollset :: "int \<times> int \<Rightarrow> 'cb pollset" where
  "empty_pollset p =
     \<lparr>selfpipe = p, pipe_bytes = [], pipe_capacity = 65536, pollfds = [],
      pollfds_storage = 0, state = Map.empty, time_cbs = [], next_node = 0,
      async_cbs = [], async_pending = False, nasync = 0, signal_pending = False,
      signal_cbs = Map.empty\<rparr>"

definition pollset_ctor :: "int \<times> int \<Rightarrow> 'cb \<Rightarrow> 'x stop + 'cb pollset" where
  "pollset_ctor p drain = fd_cb (fst p) kReadFlag (Some drain) (empty_pollset p)"

text \<open>
  A run of the registry: register and unregister calls, and the consolidation pass
  that ends a driver step. The run stops where a call does not return.
\<close>

datatype 'cb reg_op = Register int nat "'cb option" | Unregister int nat | Consolidate

fun reg_op_fd :: "'cb reg_op \<Rightarrow> int option" where
  "reg_op_fd (Register f op cb) = Some f"
| "reg_op_fd (Unregister f op) = Some f"
| "reg_op_fd Consolidate = None"

fun apply_reg_op :: "'cb reg_op \<Rightarrow> 'cb pollset \<Rightarrow> 'x stop + 'cb pollset" where
  "apply_reg_op (Register f op cb) ps = fd_cb f op cb ps"
| "apply_reg_op (Unregister f op) ps = fd_cb_null f op ps"
| "apply_reg_op Consolidate ps = consolidate ps"

fun run_reg_ops :: "'cb reg_op list \<Rightarrow> 'cb pollset \<Rightarrow> 'x stop + 'cb pollset" where
  "run_reg_ops [] ps = Inr ps"
| "run_reg_ops (x # xs) ps =
     (case apply_reg_op x ps of Inl e \<Rightarrow> Inl e | Inr ps' \<Rightarrow> run_reg_ops xs ps')"

section \<open>The event loop: async inbox\<close>

text \<open>
  \<^verbatim>\<open>std::move(first, last, d_first)\<close> of \<^verbatim>\<open><algorithm>\<close> with \<^verbatim>\<open>d_first = v.end()\<close>: it
  assigns every element of the range to the positions that start at \<^verbatim>\<open>v.end()\<close>.
  Nothing is inserted; the first assignment already writes to a position that is
  not an element of \<open>v\<close>, and the behaviour is undefined. Only the empty range
  leaves \<open>v\<close> as it is.
\<close>

definition move_to_end :: "'cb list \<Rightarrow> 'cb list \<Rightarrow> 'x stop + 'cb list" where
  "move_to_end be v = (if be = [] then Inr v else Inl Undefined)"

text \<open>
  \<^verbatim>\<open>pollset::inject_cb_vec\<close>. The argument is the range \<^verbatim>\<open>[b, e)\<close>; \<^verbatim>\<open>wake()\<close> without
  an argument is the plain wake.
\<close>

definition inject_cb_vec :: "'cb list \<Rightarrow> 'cb pollset \<Rightarrow> 'x stop + 'cb pollset" where
  "inject_cb_vec be ps =
     (if be \<noteq> [] then
        (case move_to_end be (async_cbs ps) of
           Inl e \<Rightarrow> Inl e
         | Inr v \<Rightarrow>
             let ps1 = ps\<lparr>async_cbs := v\<rparr>
             in if \<not> async_pending ps1
                then Inr (wake Normal (ps1\<lparr>async_pending := True\<rparr>))
                else Inr ps1)
      else Inr ps)"

text \<open>
  Modelled from the spec: \<^emph>\<open>inject(callback)\<close>, the thread-safe injection of one
  callback. It is declared and defined in \<^verbatim>\<open>xdrc/pollset.h\<close>, which is not part of
  the sources. The spec: it ``appends a callback to the inbox under the inbox
  mutex. If the pending-wake flag was false, it is set and a single wake byte is
  written to the self-pipe write end.''
\<close>

definition inject :: "'cb \<Rightarrow> 'cb pollset \<Rightarrow> 'cb pollset" where
  "inject c ps =
     (let ps1 = ps\<lparr>async_cbs := async_cbs ps @ [c]\<rparr>
      in if \<not> async_pending ps1 then wake Normal (ps1\<lparr>async_pending := True\<rparr>) else ps1)"

text \<open>
  \<^verbatim>\<open>pollset::run_pending_asyncs\<close>. The self-pipe is read in chunks of at most 128
  bytes until it is empty; a chunk is scanned for a signal wake as long as
  \<^verbatim>\<open>signal_pending_\<close> is not set.
\<close>

fun scan_wake :: "wake_type list \<Rightarrow> bool \<Rightarrow> bool" where
  "scan_wake [] sp = sp"
| "scan_wake (b # bs) sp = (if sp then sp else scan_wake bs (b = Signal))"

function drain_selfpipe :: "wake_type list \<Rightarrow> bool \<Rightarrow> bool" where
  "drain_selfpipe bytes sp =
     (if bytes \<noteq> [] then drain_selfpipe (drop 128 bytes) (scan_wake (take 128 bytes) sp)
      else sp)"
  by pat_completeness auto
termination
  by (relation "measure (\<lambda>(bytes, sp). length bytes)") auto

declare drain_selfpipe.simps [simp del]

text \<open>
  The loop over the drained batch. When a callback throws, the destructor of
  \<^verbatim>\<open>cleanup\<close> runs \<^verbatim>\<open>inject_cb_vec(i+1, cbs.end())\<close> on the callbacks after it, and the
  exception goes on to the caller if that call returns.
\<close>

fun run_cbs ::
    "('cb, 'w, 'x) runner \<Rightarrow> 'cb list \<Rightarrow> 'w \<times> 'cb pollset
      \<Rightarrow> 'x stop option \<times> ('w \<times> 'cb pollset)" where
  "run_cbs exec [] wp = (None, wp)"
| "run_cbs exec (c # rest) wp =
     (case exec c wp of
        (Some x, (w', ps')) \<Rightarrow>
          (case inject_cb_vec rest ps' of
             Inl e \<Rightarrow> (Some e, (w', ps'))
           | Inr ps'' \<Rightarrow> (Some (Thrown x), (w', ps'')))
      | (None, wp') \<Rightarrow> run_cbs exec rest wp')"

definition run_pending_asyncs ::
    "('cb, 'w, 'x) runner \<Rightarrow> 'w \<times> 'cb pollset \<Rightarrow> 'x stop option \<times> ('w \<times> 'cb pollset)" where
  "run_pending_asyncs exec wp =
     (let (w, ps) = wp;
          ps1 = ps\<lparr>signal_pending := drain_selfpipe (pipe_bytes ps) (signal_pending ps),
                   pipe_bytes := []\<rparr>;
          cbs = async_cbs ps1;
          ps2 = ps1\<lparr>async_pending := False, async_cbs := []\<rparr>
      in run_cbs exec cbs (w, ps2))"

section \<open>The event loop: dispatch of a ready slot\<close>

text \<open>
  The body of the loop of \<^verbatim>\<open>pollset::poll\<close> for slot \<open>i\<close>, without the count \<^verbatim>\<open>r\<close>.
  \<^verbatim>\<open>pfd\<close> and \<^verbatim>\<open>fi\<close> are references, taken before any callback runs: slot \<open>i\<close> of
  \<^verbatim>\<open>pollfds_\<close> and the record of the descriptor \<open>f\<close> found there. The write part of
  the body uses them after the read callback has run.
\<close>







section \<open>The event loop: signal router\<close>

text \<open>
  The state that all pollsets of a process share: the static arrays
  \<^verbatim>\<open>signal_owners\<close> and \<^verbatim>\<open>signal_flags\<close>, the pollset objects themselves (a
  \<^verbatim>\<open>pollset *\<close> is the number of an object, \<open>None\<close> is the null pointer), what the
  operating system has as the action of each signal, and the signals that
  \<^verbatim>\<open>std::raise\<close> has raised. No signal is blocked.
\<close>

datatype disposition = SIG_DFL | Handler

record 'cb process =
  signal_owners :: "nat \<Rightarrow> nat option"
  signal_flags :: "nat \<Rightarrow> nat"
  objects :: "nat \<rightharpoonup> 'cb pollset"
  sigactions :: "nat \<Rightarrow> disposition"
  raised :: "nat list"

text \<open>
  \<^verbatim>\<open>sigaction\<close> refuses to change the action of \<^verbatim>\<open>SIGKILL\<close> (9) and \<^verbatim>\<open>SIGSTOP\<close> (19);
  the other signal numbers that pass the \<^verbatim>\<open>assert\<close> are accepted.
\<close>

definition sys_sigaction :: "nat \<Rightarrow> disposition \<Rightarrow> 'cb process \<Rightarrow> 'cb process option" where
  "sys_sigaction sig d pr =
     (if sig = 9 \<or> sig = 19 then None
      else Some (pr\<lparr>sigactions := (sigactions pr)(sig := d)\<rparr>))"

text \<open>
  \<^verbatim>\<open>while (signal_flags[sig] & 1) std::this_thread::yield();\<close> with no signal handler
  running beside it: the loop ends at once or never. \<open>None\<close> is the loop that does
  not end.
\<close>

partial_function (option) spin_wake_in_progress :: "nat \<Rightarrow> unit option" where
  "spin_wake_in_progress flag =
     (if flag AND 1 \<noteq> 0 then spin_wake_in_progress flag else Some ())"

text \<open>
  What the default action of a signal does to the process (\<^verbatim>\<open>signal(7)\<close>, with the
  Linux numbers): \<^verbatim>\<open>SIGCHLD\<close> (17), \<^verbatim>\<open>SIGURG\<close> (23) and \<^verbatim>\<open>SIGWINCH\<close> (28) are ignored,
  \<^verbatim>\<open>SIGCONT\<close> (18) continues, \<^verbatim>\<open>SIGSTOP\<close>, \<^verbatim>\<open>SIGTSTP\<close>, \<^verbatim>\<open>SIGTTIN\<close> and \<^verbatim>\<open>SIGTTOU\<close>
  (19 to 22) stop the process until it is continued, and every other signal ends
  the process.
\<close>

datatype sig_default = Terminate | Ignore | Stop | Continue

definition default_action :: "nat \<Rightarrow> sig_default" where
  "default_action sig =
     (if sig = 17 \<or> sig = 23 \<or> sig = 28 then Ignore
      else if sig = 18 then Continue
      else if sig = 19 \<or> sig = 20 \<or> sig = 21 \<or> sig = 22 then Stop
      else Terminate)"

text \<open>
  \<^verbatim>\<open>std::raise(sig)\<close> while the action of \<open>sig\<close> is the default one: the signal is
  delivered before \<^verbatim>\<open>raise\<close> returns, so the call does not return when the default
  action ends the process.
\<close>

definition raise_default ::
    "nat \<Rightarrow> 'cb process \<Rightarrow> 'x stop option \<times> 'cb process" where
  "raise_default sig pr =
     (let pr1 = pr\<lparr>raised := raised pr @ [sig]\<rparr>
      in if default_action sig = Terminate then (Some Killed, pr1) else (None, pr1))"

text \<open>
  \<^verbatim>\<open>pollset::erase_signal_cb\<close>. It is a function of the signal number alone: the
  pollset it works on is the owner it finds in \<^verbatim>\<open>signal_owners\<close>. A call that does
  not return normally still leaves the state that it has reached; \<open>None\<close> is the
  call whose spin loop does not end.
\<close>

definition erase_signal_cb ::
    "nat \<Rightarrow> 'cb process \<Rightarrow> ('x stop option \<times> 'cb process) option" where
  "erase_signal_cb sig pr =
     (case signal_owners pr sig of
        None \<Rightarrow> Some (None, pr)
      | Some p \<Rightarrow>
          (case sys_sigaction sig SIG_DFL pr of
             None \<Rightarrow> Some (Some SystemError, pr)
           | Some pr1 \<Rightarrow>
               let pr2 = pr1\<lparr>signal_owners := (signal_owners pr1)(sig := None)\<rparr> in
               (case objects pr2 p of
                  None \<Rightarrow> Some (Some Undefined, pr2)
                | Some ps \<Rightarrow>
                    let pr3 = pr2\<lparr>objects := (objects pr2)
                                (p \<mapsto> ps\<lparr>signal_cbs := (signal_cbs ps)(sig := None)\<rparr>)\<rparr>
                    in (case spin_wake_in_progress (signal_flags pr3 sig) of
                          None \<Rightarrow> None
                        | Some _ \<Rightarrow>
                            if signal_flags pr3 sig \<noteq> 0
                            then Some (raise_default sig
                                         (pr3\<lparr>signal_flags := (signal_flags pr3)(sig := 0)\<rparr>))
                            else Some (None, pr3)))))"

text \<open>
  \<^verbatim>\<open>pollset::signal_cb(int sig, std::nullptr_t)\<close>, called on the pollset \<open>this\<close>.
  \<open>nsig\<close> is \<^verbatim>\<open>num_sig\<close>, a constant of \<^verbatim>\<open>xdrc/pollset.h\<close>.
\<close>

definition signal_cb_null ::
    "nat \<Rightarrow> nat \<Rightarrow> nat \<Rightarrow> 'cb process \<Rightarrow> ('x stop option \<times> 'cb process) option" where
  "signal_cb_null nsig this sig pr =
     (if \<not> (sig > 0 \<and> sig < nsig) then Some (Some Aborted, pr)
      else erase_signal_cb sig pr)"

text \<open>
  \<^verbatim>\<open>pollset::signal_cb(int sig, cb_t cb)\<close>, called on the pollset \<open>this\<close>. The callback
  is stored, and the owner is set, before \<^verbatim>\<open>sigaction\<close> is called: they stay when
  \<^verbatim>\<open>sigaction\<close> fails and the call throws.
\<close>

definition signal_cb ::
    "nat \<Rightarrow> nat \<Rightarrow> nat \<Rightarrow> 'cb option \<Rightarrow> 'cb process
      \<Rightarrow> ('x stop option \<times> 'cb process) option" where
  "signal_cb nsig this sig cb pr =
     (if cb = None then signal_cb_null nsig this sig pr
      else if \<not> (sig > 0 \<and> sig < nsig) then Some (Some Aborted, pr)
      else
        (case objects pr this of
           None \<Rightarrow> Some (Some Undefined, pr)
         | Some me \<Rightarrow>
             let pr1 = pr\<lparr>objects := (objects pr)
                         (this \<mapsto> me\<lparr>signal_cbs := (signal_cbs me)(sig := cb)\<rparr>)\<rparr> in
             if signal_owners pr1 sig = Some this then Some (None, pr1)
             else
               (case
                  (case signal_owners pr1 sig of
                     Some p \<Rightarrow>
                       (let pr2 = pr1\<lparr>signal_owners := (signal_owners pr1)(sig \<mapsto> this)\<rparr> in
                        case objects pr2 p of
                          None \<Rightarrow> (Some Undefined, pr2)
                        | Some ps \<Rightarrow>
                            (None, pr2\<lparr>objects := (objects pr2)
                                     (p \<mapsto> ps\<lparr>signal_cbs := (signal_cbs ps)(sig := None)\<rparr>)\<rparr>))
                   | None \<Rightarrow>
                       (let pr2 = pr1\<lparr>signal_owners := (signal_owners pr1)(sig \<mapsto> this)\<rparr> in
                        case sys_sigaction sig Handler pr2 of
                          None \<Rightarrow> (Some SystemError, pr2)
                        | Some pr3 \<Rightarrow> (None, pr3)))
                of
                  (Some e, pr4) \<Rightarrow> Some (Some e, pr4)
                | (None, pr4) \<Rightarrow>
                    if signal_flags pr4 sig \<noteq> 0
                    then (case objects pr4 this of
                            None \<Rightarrow> Some (Some Undefined, pr4)
                          | Some me' \<Rightarrow>
                              Some (None, pr4\<lparr>objects := (objects pr4)
                                            (this \<mapsto> wake Signal me')\<rparr>))
                    else Some (None, pr4))))"

section \<open>The invariant of the descriptor registry\<close>

text \<open>
  The descriptors of the slots of \<^verbatim>\<open>pollfds_\<close>, in order, and the index that the record
  of a descriptor stores.
\<close>

definition slot_fds :: "'cb pollset \<Rightarrow> int list" where
  "slot_fds ps = map fd (pollfds ps)"

definition stored_idx :: "'cb pollset \<Rightarrow> int \<rightharpoonup> int" where
  "stored_idx ps f = map_option idx (state ps f)"

text \<open>
  The array and the map agree: the record of the descriptor in slot \<open>i\<close> stores \<open>i\<close>,
  and every record belongs to a descriptor that has a slot.
\<close>

definition agree :: "int list \<Rightarrow> (int \<rightharpoonup> int) \<Rightarrow> bool" where
  "agree fds im \<longleftrightarrow>
     (\<forall>i < length fds. im (fds ! i) = Some (int i)) \<and> (\<forall>f. im f \<noteq> None \<longrightarrow> f \<in> set fds)"

definition registry_inv :: "'cb pollset \<Rightarrow> bool" where
  "registry_inv ps \<longleftrightarrow> agree (slot_fds ps) (stored_idx ps)"

text \<open>No slot from \<open>k\<close> on has an empty interest mask.\<close>

definition dense_from :: "nat \<Rightarrow> 'cb pollset \<Rightarrow> bool" where
  "dense_from k ps \<longleftrightarrow> (\<forall>j. k \<le> j \<and> j < length (pollfds ps) \<longrightarrow> events (pollfds ps ! j) \<noteq> 0)"

section \<open>The padding of a length\<close>

text \<open>The number of pad bytes that follow \<open>len\<close> bytes.\<close>

definition npad :: "nat \<Rightarrow> nat" where
  "npad len = (4 - len mod 4) mod 4"

section \<open>The order of the timer queue\<close>

text \<open>
  The records of a \<^verbatim>\<open>std::multimap\<close> are iterated in ascending order of their keys:
  the list that stands for \<^verbatim>\<open>time_cbs_\<close> is sorted by deadline.
\<close>

definition mm_sorted :: "'cb timer list \<Rightarrow> bool" where
  "mm_sorted q \<longleftrightarrow> sorted (map (\<lambda>t. sint (fst t)) q)"

section \<open>General facts about the model\<close>

subsection \<open>The multimap of timers\<close>

lemma mm_deref_None_iff: "mm_deref n q = None \<longleftrightarrow> n \<notin> (\<lambda>(k, n', c). n') ` set q"
proof (induction q)
  case Nil
  then show ?case by simp
next
  case (Cons t q)
  obtain k n' c where t: "t = (k, n', c)" by (cases t)
  show ?case unfolding t using Cons.IH by (cases "n' = n") auto
qed

lemma mm_deref_emplace_same:
  "mm_deref n q = None \<Longrightarrow> mm_deref n (mm_emplace k n c q) = Some (k, c)"
  by (induction q) (auto split: if_splits)

lemma mm_deref_emplace_other:
  "n \<noteq> n' \<Longrightarrow> mm_deref n (mm_emplace k n' c q) = mm_deref n q"
  by (induction q) auto

lemma mm_deref_erase_other:
  "n \<noteq> n' \<Longrightarrow> mm_deref n (mm_erase n' q) = mm_deref n q"
  by (induction q) auto

lemma mm_deref_key_in_set:
  "mm_deref n q = Some (k, c) \<Longrightarrow> (k, n, c) \<in> set q"
  by (induction q) (auto split: if_splits)

lemma mm_emplace_set: "set (mm_emplace k n c q) = insert (k, n, c) (set q)"
proof (induction q)
  case Nil
  then show ?case by simp
next
  case (Cons t q)
  obtain k' n' c' where t: "t = (k', n', c')" by (cases t)
  show ?case unfolding t using Cons.IH by (cases "sint k' \<le> sint k") auto
qed

lemma mm_erase_subset: "set (mm_erase n q) \<subseteq> set q"
proof (induction q)
  case Nil
  then show ?case by simp
next
  case (Cons t q)
  obtain k' n' c' where t: "t = (k', n', c')" by (cases t)
  show ?case unfolding t using Cons.IH by (cases "n' = n") auto
qed

lemma mm_emplace_sorted: "mm_sorted q \<Longrightarrow> mm_sorted (mm_emplace k n c q)"
proof (induction q)
  case Nil
  then show ?case by (simp add: mm_sorted_def)
next
  case (Cons t q)
  obtain k' n' c' where t: "t = (k', n', c')" by (cases t)
  from Cons.prems have s: "mm_sorted q" and le: "\<forall>x \<in> set q. sint k' \<le> sint (fst x)"
    by (simp_all add: mm_sorted_def t)
  show ?case
  proof (cases "sint k' \<le> sint k")
    case True
    from Cons.IH[OF s] have "mm_sorted (mm_emplace k n c q)" .
    moreover have "\<forall>x \<in> set (mm_emplace k n c q). sint k' \<le> sint (fst x)"
      unfolding mm_emplace_set using le True by simp
    ultimately show ?thesis using True by (simp add: mm_sorted_def t)
  next
    case False
    then have "sint k \<le> sint k'" by simp
    with le have "\<forall>x \<in> set q. sint k \<le> sint (fst x)" by fastforce
    with False Cons.prems \<open>sint k \<le> sint k'\<close> show ?thesis
      by (simp add: mm_sorted_def t)
  qed
qed

lemma mm_erase_sorted: "mm_sorted q \<Longrightarrow> mm_sorted (mm_erase n q)"
proof (induction q)
  case Nil
  then show ?case by simp
next
  case (Cons t q)
  obtain k' n' c' where t: "t = (k', n', c')" by (cases t)
  from Cons.prems have s: "mm_sorted q" and le: "\<forall>x \<in> set q. sint k' \<le> sint (fst x)"
    by (simp_all add: mm_sorted_def t)
  show ?case
  proof (cases "n' = n")
    case True
    with s show ?thesis by (simp add: t)
  next
    case False
    from le mm_erase_subset[of n q] have "\<forall>x \<in> set (mm_erase n q). sint k' \<le> sint (fst x)"
      by blast
    with Cons.IH[OF s] False show ?thesis by (simp add: mm_sorted_def t)
  qed
qed

lemma mm_sorted_head:
  "mm_sorted (t # q) \<Longrightarrow> x \<in> set (t # q) \<Longrightarrow> sint (fst t) \<le> sint (fst x)"
  by (auto simp: mm_sorted_def)

subsection \<open>The pollset that the constructor builds\<close>

lemma pollset_ctor_value:
  "pollset_ctor (r, w) d =
     Inr ((empty_pollset (r, w))
       \<lparr>pollfds := [\<lparr>fd = r, events = POLLIN, revents = 0\<rparr>],
        pollfds_storage := 1,
        state := [r \<mapsto> \<lparr>rcb = Some d, wcb = None, idx = 0, roneshot = False,
                          woneshot = False\<rparr>]\<rparr>)"
  by (simp add: pollset_ctor_def fd_cb_def fd_cb_helper_def empty_pollset_def new_fd_state_def
      set_events_def kReadFlag_def kWriteFlag_def kOnceFlag_def Let_def)

section \<open>Timers: a due timer is called before it is erased\<close>

text \<open>
  Claim C1 and the code. The claim has the record of a due timer erased before its
  callback is called, so that the callback may re-schedule freely. \<open>run_timeouts\<close>
  calls \<^verbatim>\<open>i->second()\<close> first and erases with \<^verbatim>\<open>time_cbs_.erase(i++)\<close> afterwards. At
  the queue that holds one timer, node 0 with deadline 50 and callback 7, run at
  time 100: the callback is handed a queue that still holds its own record; a
  callback that re-schedules its own handle, at the same deadline, erases node 0,
  and \<^verbatim>\<open>erase(i++)\<close> then uses an iterator to a node that is gone, where the
  behaviour is undefined; and a callback that throws leaves its record in the
  queue.
\<close>

theorem run_timeouts_calls_before_erasing:
  "run_timeouts 3 (traced (\<lambda>c wp. (None :: unit option, wp))) 100
       (((), []), (empty_pollset (3, 4))\<lparr>time_cbs := [(50, 0, 7 :: nat)], next_node := 1\<rparr>)
     = Some (None,
             (((), [(7, (empty_pollset (3, 4))\<lparr>time_cbs := [(50, 0, 7)], next_node := 1\<rparr>)]),
              (empty_pollset (3, 4))\<lparr>time_cbs := [], next_node := 1\<rparr>))
   \<and> run_timeouts 3
         (\<lambda>c (w, ps).
            case (timeout_reschedule_at (Node 0) 50 ps :: unit stop + nat pollset \<times> iter) of
              Inl e \<Rightarrow> (None :: unit option, (w, ps))
            | Inr (ps', t) \<Rightarrow> (None, (w, ps')))
         100
         ((), (empty_pollset (3, 4))\<lparr>time_cbs := [(50, 0, 7 :: nat)], next_node := 1\<rparr>)
       = Some (Some Undefined,
               ((), (empty_pollset (3, 4))\<lparr>time_cbs := [(50, 1, 7)], next_node := 2\<rparr>))
   \<and> run_timeouts 3 (\<lambda>c wp. (Some (), wp)) 100
         ((), (empty_pollset (3, 4))\<lparr>time_cbs := [(50, 0, 7 :: nat)], next_node := 1\<rparr>)
       = Some (Some (Thrown ()),
               ((), (empty_pollset (3, 4))\<lparr>time_cbs := [(50, 0, 7)], next_node := 1\<rparr>))"
  by (simp add: run_timeouts_def traced_def mm_begin_def timeout_reschedule_at_def
      empty_pollset_def numeral_3_eq_3 Let_def)

section \<open>Signal router: uninstalling a signal callback\<close>

lemma spin_wake_in_progress_even:
  "flag AND 1 = 0 \<Longrightarrow> spin_wake_in_progress flag = Some ()"
  by (subst spin_wake_in_progress.simps) simp

lemma spin_wake_in_progress_returns:
  "spin_wake_in_progress flag = Some u \<Longrightarrow> flag AND 1 = 0"
  by (rule spin_wake_in_progress.raw_induct[where P = "\<lambda>flag u. flag AND 1 = 0"])
    (auto split: if_splits)

lemma spin_wake_in_progress_odd:
  "flag AND 1 \<noteq> 0 \<Longrightarrow> spin_wake_in_progress flag = None"
  using spin_wake_in_progress_returns[of flag] by (cases "spin_wake_in_progress flag") auto

text \<open>
  Two pollsets, objects 1 and 2. Pollset 2 installs a callback for signal 10 and owns
  it; then pollset 1, which does not own it, uninstalls signal 10. The claim C2 has
  that call change nothing. It resets the action of the signal, clears the owner
  slot and removes the callback of pollset 2.
\<close>

theorem signal_cb_null_by_other_counterexample:
  "(case signal_cb 32 2 10 (Some (7 :: nat))
           \<lparr>signal_owners = (\<lambda>_. None), signal_flags = (\<lambda>_. 0),
            objects = [1 \<mapsto> empty_pollset (3, 4), 2 \<mapsto> empty_pollset (5, 6)],
            sigactions = (\<lambda>_. SIG_DFL), raised = []\<rparr>
      :: (unit stop option \<times> nat process) option of
      Some (None, p1) \<Rightarrow>
        signal_owners p1 10 = Some 2
        \<and> sigactions p1 10 = Handler
        \<and> map_option (\<lambda>ps. signal_cbs ps 10) (objects p1 2) = Some (Some 7)
        \<and> (case signal_cb_null 32 1 10 p1 :: (unit stop option \<times> nat process) option of
              Some (None, p2) \<Rightarrow>
                signal_owners p2 10 = None
                \<and> sigactions p2 10 = SIG_DFL
                \<and> map_option (\<lambda>ps. signal_cbs ps 10) (objects p2 2) = Some None
            | _ \<Rightarrow> False)
    | _ \<Rightarrow> False)"
  by (simp add: signal_cb_def signal_cb_null_def erase_signal_cb_def sys_sigaction_def
      spin_wake_in_progress_even Let_def)

text \<open>
  Claim C2, amended. For a signal number that passes the \<^verbatim>\<open>assert\<close>:
  \<open>signal_cb(sig, nullptr)\<close> changes nothing when no pollset owns the signal. When a
  pollset owns it, the caller or any other, the call acts on that owner. For
  \<^verbatim>\<open>SIGKILL\<close> (9) and \<^verbatim>\<open>SIGSTOP\<close> (19), whose action the operating system does not let
  be set, it throws a system error and changes nothing. For every other signal it
  restores the default action, clears the owner slot and removes the signal from
  the owner's callback map; then it does not return while the flag of the signal
  says that a wake is in progress (the flag is odd); with the flag at zero it
  returns; and with the flag set it clears the flag and raises the signal again,
  which ends the process when the default action of the signal is to end it.
\<close>

theorem signal_cb_null_acts_on_owner:
  assumes "0 < sig" and "sig < nsig"
  shows
  "(signal_owners pr sig = None
      \<longrightarrow> signal_cb_null nsig this sig pr
            = (Some (None, pr) :: ('x stop option \<times> 'cb process) option))
   \<and> (signal_owners pr sig = Some p \<and> (sig = 9 \<or> sig = 19)
      \<longrightarrow> signal_cb_null nsig this sig pr
            = (Some (Some SystemError, pr) :: ('x stop option \<times> 'cb process) option))
   \<and> (signal_owners pr sig = Some p \<and> sig \<noteq> 9 \<and> sig \<noteq> 19 \<and> objects pr p = Some ps
      \<longrightarrow> (let pr' = pr\<lparr>sigactions := (sigactions pr)(sig := SIG_DFL),
                         signal_owners := (signal_owners pr)(sig := None),
                         objects := (objects pr)
                           (p \<mapsto> ps\<lparr>signal_cbs := (signal_cbs ps)(sig := None)\<rparr>)\<rparr>
            in (signal_flags pr sig AND 1 \<noteq> 0
                  \<longrightarrow> signal_cb_null nsig this sig pr
                        = (None :: ('x stop option \<times> 'cb process) option))
               \<and> (signal_flags pr sig = 0
                  \<longrightarrow> signal_cb_null nsig this sig pr
                        = (Some (None, pr') :: ('x stop option \<times> 'cb process) option))
               \<and> (signal_flags pr sig \<noteq> 0 \<and> signal_flags pr sig AND 1 = 0
                  \<longrightarrow> signal_cb_null nsig this sig pr
                        = (Some (if default_action sig = Terminate then Some Killed else None,
                                 pr'\<lparr>signal_flags := (signal_flags pr)(sig := 0),
                                     raised := raised pr @ [sig]\<rparr>)
                           :: ('x stop option \<times> 'cb process) option))))"
proof -
  have e: "signal_cb_null nsig this sig pr
      = (erase_signal_cb sig pr :: ('x stop option \<times> 'cb process) option)"
    using assms by (simp add: signal_cb_null_def)
  have A: "signal_owners pr sig = None
      \<longrightarrow> erase_signal_cb sig pr = (Some (None, pr) :: ('x stop option \<times> 'cb process) option)"
    by (simp add: erase_signal_cb_def)
  have B: "signal_owners pr sig = Some p \<and> (sig = 9 \<or> sig = 19)
      \<longrightarrow> erase_signal_cb sig pr
            = (Some (Some SystemError, pr) :: ('x stop option \<times> 'cb process) option)"
    by (auto simp: erase_signal_cb_def sys_sigaction_def)
  have C: "signal_owners pr sig = Some p \<and> sig \<noteq> 9 \<and> sig \<noteq> 19 \<and> objects pr p = Some ps
      \<longrightarrow> (let pr' = pr\<lparr>sigactions := (sigactions pr)(sig := SIG_DFL),
                         signal_owners := (signal_owners pr)(sig := None),
                         objects := (objects pr)
                           (p \<mapsto> ps\<lparr>signal_cbs := (signal_cbs ps)(sig := None)\<rparr>)\<rparr>
            in (signal_flags pr sig AND 1 \<noteq> 0
                  \<longrightarrow> erase_signal_cb sig pr
                        = (None :: ('x stop option \<times> 'cb process) option))
               \<and> (signal_flags pr sig = 0
                  \<longrightarrow> erase_signal_cb sig pr
                        = (Some (None, pr') :: ('x stop option \<times> 'cb process) option))
               \<and> (signal_flags pr sig \<noteq> 0 \<and> signal_flags pr sig AND 1 = 0
                  \<longrightarrow> erase_signal_cb sig pr
                        = (Some (if default_action sig = Terminate then Some Killed else None,
                                 pr'\<lparr>signal_flags := (signal_flags pr)(sig := 0),
                                     raised := raised pr @ [sig]\<rparr>)
                           :: ('x stop option \<times> 'cb process) option)))"
    by (simp add: erase_signal_cb_def sys_sigaction_def raise_default_def
        spin_wake_in_progress_even spin_wake_in_progress_odd Let_def)
  from A B C show ?thesis unfolding e by blast
qed

text \<open>
  The cases of the theorem at two pollsets, objects 1 and 2, with 32 signal
  numbers. Pollset 2 owns signal 10 (\<^verbatim>\<open>SIGUSR1\<close>, whose default action ends the
  process). Pollset 1 uninstalls signal 12, which nobody owns, and then signal 10.
  With the flag of signal 10 at 2 the uninstall ends the process, and with the
  flag at 1 it does not return. Signal 9 comes to be owned by a failed install:
  \<open>signal_cb\<close> stores the callback and the owner before \<^verbatim>\<open>sigaction\<close> refuses, and the
  uninstall that follows throws as well and leaves both.
\<close>

theorem signal_cb_null_acts_on_owner_witness:
  "signal_cb_null 32 1 12
       \<lparr>signal_owners = (\<lambda>_. None)(10 := Some 2), signal_flags = (\<lambda>_. 0),
        objects = [1 \<mapsto> empty_pollset (3, 4),
                   2 \<mapsto> (empty_pollset (5, 6))\<lparr>signal_cbs := [10 \<mapsto> (7 :: nat)]\<rparr>],
        sigactions = (\<lambda>_. SIG_DFL)(10 := Handler), raised = []\<rparr>
     = (Some (None, \<lparr>signal_owners = (\<lambda>_. None)(10 := Some 2), signal_flags = (\<lambda>_. 0),
        objects = [1 \<mapsto> empty_pollset (3, 4),
                   2 \<mapsto> (empty_pollset (5, 6))\<lparr>signal_cbs := [10 \<mapsto> (7 :: nat)]\<rparr>],
        sigactions = (\<lambda>_. SIG_DFL)(10 := Handler), raised = []\<rparr>)
         :: (unit stop option \<times> nat process) option)
   \<and> (case signal_cb_null 32 1 10
       \<lparr>signal_owners = (\<lambda>_. None)(10 := Some 2), signal_flags = (\<lambda>_. 0),
        objects = [1 \<mapsto> empty_pollset (3, 4),
                   2 \<mapsto> (empty_pollset (5, 6))\<lparr>signal_cbs := [10 \<mapsto> (7 :: nat)]\<rparr>],
        sigactions = (\<lambda>_. SIG_DFL)(10 := Handler), raised = []\<rparr>
         :: (unit stop option \<times> nat process) option of
         Some (r, pr') \<Rightarrow>
           r = None \<and> signal_owners pr' 10 = None \<and> sigactions pr' 10 = SIG_DFL
           \<and> map_option (\<lambda>ps. signal_cbs ps 10) (objects pr' 2) = Some None
           \<and> raised pr' = []
       | None \<Rightarrow> False)
   \<and> (case signal_cb_null 32 1 10
       \<lparr>signal_owners = (\<lambda>_. None)(10 := Some 2), signal_flags = (\<lambda>_. 0)(10 := 2),
        objects = [1 \<mapsto> empty_pollset (3, 4),
                   2 \<mapsto> (empty_pollset (5, 6))\<lparr>signal_cbs := [10 \<mapsto> (7 :: nat)]\<rparr>],
        sigactions = (\<lambda>_. SIG_DFL)(10 := Handler), raised = []\<rparr>
         :: (unit stop option \<times> nat process) option of
         Some (r, pr') \<Rightarrow>
           r = Some Killed \<and> signal_owners pr' 10 = None \<and> sigactions pr' 10 = SIG_DFL
           \<and> map_option (\<lambda>ps. signal_cbs ps 10) (objects pr' 2) = Some None
           \<and> signal_flags pr' 10 = 0 \<and> raised pr' = [10]
       | None \<Rightarrow> False)
   \<and> signal_cb_null 32 1 10
       \<lparr>signal_owners = (\<lambda>_. None)(10 := Some 2), signal_flags = (\<lambda>_. 0)(10 := 1),
        objects = [1 \<mapsto> empty_pollset (3, 4),
                   2 \<mapsto> (empty_pollset (5, 6))\<lparr>signal_cbs := [10 \<mapsto> (7 :: nat)]\<rparr>],
        sigactions = (\<lambda>_. SIG_DFL)(10 := Handler), raised = []\<rparr>
     = (None :: (unit stop option \<times> nat process) option)
   \<and> (case signal_cb 32 2 9 (Some (7 :: nat))
           \<lparr>signal_owners = (\<lambda>_. None), signal_flags = (\<lambda>_. 0),
            objects = [1 \<mapsto> empty_pollset (3, 4), 2 \<mapsto> empty_pollset (5, 6)],
            sigactions = (\<lambda>_. SIG_DFL), raised = []\<rparr>
         :: (unit stop option \<times> nat process) option of
         Some (r, p1) \<Rightarrow>
           r = Some SystemError \<and> signal_owners p1 9 = Some 2
           \<and> map_option (\<lambda>ps. signal_cbs ps 9) (objects p1 2) = Some (Some 7)
           \<and> signal_cb_null 32 2 9 p1
               = (Some (Some SystemError, p1) :: (unit stop option \<times> nat process) option)
       | None \<Rightarrow> False)"
proof -
  let ?B = "(empty_pollset (5, 6))\<lparr>signal_cbs := [10 \<mapsto> (7 :: nat)]\<rparr>"
  let ?pr = "\<lambda>fl. \<lparr>signal_owners = (\<lambda>_. None)(10 := Some 2),
        signal_flags = (\<lambda>_. 0)(10 := fl),
        objects = [1 \<mapsto> empty_pollset (3, 4), 2 \<mapsto> ?B],
        sigactions = (\<lambda>_. SIG_DFL)(10 := Handler), raised = []\<rparr>"
  let ?p9 = "\<lparr>signal_owners = (\<lambda>_. None)(9 := Some 2), signal_flags = (\<lambda>_. 0),
        objects = [1 \<mapsto> empty_pollset (3, 4),
                   2 \<mapsto> (empty_pollset (5, 6))\<lparr>signal_cbs := [9 \<mapsto> (7 :: nat)]\<rparr>],
        sigactions = (\<lambda>_. SIG_DFL), raised = []\<rparr>"
  have z: "(\<lambda>_. 0 :: nat)(10 := 0) = (\<lambda>_. 0)"
    by auto
  have a: "signal_cb_null 32 1 12 (?pr 0)
      = (Some (None, ?pr 0) :: (unit stop option \<times> nat process) option)"
    using signal_cb_null_acts_on_owner[where ?'x = unit and sig = 12 and nsig = 32
        and pr = "?pr 0" and this = 1 and p = 2 and ps = ?B]
    by simp
  have b: "(case signal_cb_null 32 1 10 (?pr 0)
         :: (unit stop option \<times> nat process) option of
         Some (r, pr') \<Rightarrow>
           r = None \<and> signal_owners pr' 10 = None \<and> sigactions pr' 10 = SIG_DFL
           \<and> map_option (\<lambda>ps. signal_cbs ps 10) (objects pr' 2) = Some None
           \<and> raised pr' = []
       | None \<Rightarrow> False)"
    using signal_cb_null_acts_on_owner[where ?'x = unit and sig = 10 and nsig = 32
        and pr = "?pr 0" and this = 1 and p = 2 and ps = ?B]
    by (simp add: Let_def)
  have c: "(case signal_cb_null 32 1 10 (?pr 2)
         :: (unit stop option \<times> nat process) option of
         Some (r, pr') \<Rightarrow>
           r = Some Killed \<and> signal_owners pr' 10 = None \<and> sigactions pr' 10 = SIG_DFL
           \<and> map_option (\<lambda>ps. signal_cbs ps 10) (objects pr' 2) = Some None
           \<and> signal_flags pr' 10 = 0 \<and> raised pr' = [10]
       | None \<Rightarrow> False)"
    using signal_cb_null_acts_on_owner[where ?'x = unit and sig = 10 and nsig = 32
        and pr = "?pr 2" and this = 1 and p = 2 and ps = ?B]
    by (simp add: Let_def default_action_def)
  have d: "signal_cb_null 32 1 10 (?pr 1)
      = (None :: (unit stop option \<times> nat process) option)"
    using signal_cb_null_acts_on_owner[where ?'x = unit and sig = 10 and nsig = 32
        and pr = "?pr 1" and this = 1 and p = 2 and ps = ?B]
    by (simp add: Let_def)
  have i9: "signal_cb 32 2 9 (Some (7 :: nat))
           \<lparr>signal_owners = (\<lambda>_. None), signal_flags = (\<lambda>_. 0),
            objects = [1 \<mapsto> empty_pollset (3, 4), 2 \<mapsto> empty_pollset (5, 6)],
            sigactions = (\<lambda>_. SIG_DFL), raised = []\<rparr>
      = (Some (Some SystemError, ?p9) :: (unit stop option \<times> nat process) option)"
    by (simp add: signal_cb_def sys_sigaction_def empty_pollset_def Let_def)
  have e9: "signal_cb_null 32 2 9 ?p9
      = (Some (Some SystemError, ?p9) :: (unit stop option \<times> nat process) option)"
    using signal_cb_null_acts_on_owner[where ?'x = unit and sig = 9 and nsig = 32
        and pr = ?p9 and this = 2 and p = 2]
    by simp
  have e: "(case signal_cb 32 2 9 (Some (7 :: nat))
           \<lparr>signal_owners = (\<lambda>_. None), signal_flags = (\<lambda>_. 0),
            objects = [1 \<mapsto> empty_pollset (3, 4), 2 \<mapsto> empty_pollset (5, 6)],
            sigactions = (\<lambda>_. SIG_DFL), raised = []\<rparr>
         :: (unit stop option \<times> nat process) option of
         Some (r, p1) \<Rightarrow>
           r = Some SystemError \<and> signal_owners p1 9 = Some 2
           \<and> map_option (\<lambda>ps. signal_cbs ps 9) (objects p1 2) = Some (Some 7)
           \<and> signal_cb_null 32 2 9 p1
               = (Some (Some SystemError, p1) :: (unit stop option \<times> nat process) option)
       | None \<Rightarrow> False)"
    unfolding i9 using e9 by simp
  from a b c d e show ?thesis
    unfolding z by (intro conjI)
qed

section \<open>Async inbox: the tail of a batch whose callback throws\<close>

lemma drain_selfpipe_Nil: "drain_selfpipe [] sp = sp"
  by (subst drain_selfpipe.simps) simp

lemma drain_selfpipe_short:
  "length bytes \<le> 128 \<Longrightarrow> drain_selfpipe bytes sp = scan_wake bytes sp"
  by (subst drain_selfpipe.simps) (auto simp: drain_selfpipe_Nil)

text \<open>
  Claim C3 and the code. The claim has the callbacks after the one that threw
  appended to the inbox, and a wake issued. In the code the destructor of
  \<^verbatim>\<open>cleanup\<close> hands them to \<open>inject_cb_vec\<close>, which writes the first of them through
  \<^verbatim>\<open>async_cbs_.end()\<close>: the behaviour is undefined there, before the pending-wake
  flag is looked at. A batch of at least two callbacks whose first callback throws
  ends that way, whatever the state; at the batch \<open>[1, 2, 3]\<close> whose first callback
  throws, \<open>run_pending_asyncs\<close> has drained the self-pipe, cleared the flag and
  emptied the inbox when it gets there, and nothing has been appended and no byte
  written.
\<close>

theorem run_pending_asyncs_tail_not_appended:
  "run_cbs (\<lambda>c wp. (Some x, wp)) (c # d # rest) (w, ps) = (Some Undefined, (w, ps))
   \<and> run_pending_asyncs (\<lambda>c wp. (if c = (1 :: nat) then Some () else None, wp))
         ((), (empty_pollset (3, 4))
                \<lparr>async_cbs := [1, 2, 3], async_pending := True, pipe_bytes := [Normal]\<rparr>)
       = (Some Undefined,
          ((), (empty_pollset (3, 4))
                 \<lparr>async_cbs := [], async_pending := False, pipe_bytes := []\<rparr>))"
  by (simp add: inject_cb_vec_def move_to_end_def run_pending_asyncs_def drain_selfpipe_short
      empty_pollset_def Let_def)

section \<open>The pending predicate\<close>

text \<open>
  The claim C4 says that \<open>pending\<close> is true from an injection until the inbox is
  drained. On a pollset fresh from its constructor, \<open>inject\<close> puts the callback into
  the inbox, and \<open>pending\<close> is false.
\<close>

theorem pending_after_inject_counterexample:
  "(case (pollset_ctor (3, 4) (0 :: nat) :: unit stop + nat pollset) of
      Inl e \<Rightarrow> False
    | Inr ps \<Rightarrow> async_cbs (inject 1 ps) = [1] \<and> \<not> pending (inject 1 ps))"
  unfolding pollset_ctor_value
  by (simp add: pending_def inject_def wake_def empty_pollset_def Let_def)

text \<open>
  Claim C4, amended. \<open>pending\<close> is true exactly when the readiness-request array
  holds more than one slot, or the counter \<^verbatim>\<open>nasync_\<close> is not zero, or the timer queue
  is not empty. The inbox is none of the three: \<open>inject\<close> leaves the value of
  \<open>pending\<close> as it was, and so does any change of the inbox and of its pending-wake
  flag.
\<close>

theorem pending_iff:
  "(pending ps \<longleftrightarrow> length (pollfds ps) > 1 \<or> nasync ps > 0 \<or> time_cbs ps \<noteq> [])
   \<and> pending (inject c ps) = pending ps
   \<and> pending (ps\<lparr>async_cbs := inbox, async_pending := flag\<rparr>) = pending ps"
  by (simp add: pending_def inject_def wake_def Let_def)

theorem pending_iff_witness:
  "pending ((empty_pollset (3, 4) :: nat pollset)\<lparr>nasync := 1\<rparr>)
   \<and> \<not> pending (inject 7 (empty_pollset (3, 4) :: nat pollset))"
proof -
  have a: "pending ((empty_pollset (3, 4) :: nat pollset)\<lparr>nasync := 1\<rparr>)"
    using pending_iff[where ps = "(empty_pollset (3, 4) :: nat pollset)\<lparr>nasync := 1\<rparr>"]
    by simp
  have "\<not> pending (empty_pollset (3, 4) :: nat pollset)"
    using pending_iff[where ps = "empty_pollset (3, 4) :: nat pollset"]
    by (simp add: empty_pollset_def)
  then have b: "\<not> pending (inject 7 (empty_pollset (3, 4) :: nat pollset))"
    using pending_iff[where ps = "empty_pollset (3, 4) :: nat pollset" and c = 7] by simp
  from a b show ?thesis by simp
qed

section \<open>Descriptor registry: consolidation keeps the array dense\<close>

subsection \<open>The array of descriptors and the map of indices\<close>

lemma agree_distinct:
  assumes "agree fds im"
  shows "distinct fds"
proof -
  have "i = j" if "i < length fds" "j < length fds" "fds ! i = fds ! j" for i j
  proof -
    from assms have a: "\<forall>i < length fds. im (fds ! i) = Some (int i)"
      by (simp add: agree_def)
    from a that(1) have "Some (int i) = im (fds ! i)" by simp
    also have "\<dots> = im (fds ! j)" by (simp only: that(3))
    also from a that(2) have "\<dots> = Some (int j)" by simp
    finally show ?thesis by simp
  qed
  then show ?thesis by (simp add: distinct_conv_nth) blast
qed

lemma agree_index:
  assumes "agree fds im" "im f = Some v"
  shows "0 \<le> v \<and> nat v < length fds \<and> fds ! nat v = f"
proof -
  from assms have "f \<in> set fds" by (simp add: agree_def)
  then obtain i where i: "i < length fds" "fds ! i = f"
    by (auto simp: in_set_conv_nth)
  with assms have "v = int i" by (auto simp: agree_def)
  with i show ?thesis by simp
qed

lemma agree_append:
  assumes "agree fds im" "im f = None"
  shows "agree (fds @ [f]) (im(f \<mapsto> int (length fds)))"
proof -
  have nf: "fds ! i \<noteq> f" if "i < length fds" for i
    using assms that by (auto simp: agree_def)
  show ?thesis
    unfolding agree_def
  proof (intro conjI allI impI)
    fix i assume "i < length (fds @ [f])"
    then consider "i < length fds" | "i = length fds" by fastforce
    then show "(im(f \<mapsto> int (length fds))) ((fds @ [f]) ! i) = Some (int i)"
    proof cases
      case 1
      with nf[OF 1] assms(1) show ?thesis by (simp add: nth_append agree_def)
    next
      case 2
      then show ?thesis by simp
    qed
  next
    fix g assume "(im(f \<mapsto> int (length fds))) g \<noteq> None"
    with assms(1) show "g \<in> set (fds @ [f])"
      by (cases "g = f") (auto simp: agree_def)
  qed
qed

lemma agree_butlast:
  assumes "agree fds im" "fds \<noteq> []"
  shows "agree (butlast fds) (im(last fds := None))"
proof -
  have d: "distinct fds" using assms(1) by (rule agree_distinct)
  have l: "last fds = fds ! (length fds - 1)"
    using assms(2) by (simp add: last_conv_nth)
  have ne: "fds ! i \<noteq> last fds" if "i < length fds - 1" for i
    using d that assms(2) unfolding l by (simp add: nth_eq_iff_index_eq)
  show ?thesis
    unfolding agree_def
  proof (intro conjI allI impI)
    fix i assume "i < length (butlast fds)"
    then have i: "i < length fds - 1" by simp
    with assms(1) ne[OF i] show "(im(last fds := None)) (butlast fds ! i) = Some (int i)"
      by (simp add: nth_butlast agree_def)
  next
    fix g assume g: "(im(last fds := None)) g \<noteq> None"
    then have "g \<noteq> last fds" "im g \<noteq> None" by (auto split: if_splits)
    with assms(1) have "g \<in> set fds" by (simp add: agree_def)
    with \<open>g \<noteq> last fds\<close> assms(2) show "g \<in> set (butlast fds)"
      by (metis append_butlast_last_id in_set_butlast_appendI insert_iff list.set(2)
          rotate1.simps(2) set_rotate1)
  qed
qed

lemma agree_move_last:
  assumes "agree fds im" "Suc i < length fds"
  shows "agree (butlast (fds[i := last fds])) ((im(fds ! i := None))(last fds \<mapsto> int i))"
proof -
  let ?n = "length fds"
  have d: "distinct fds" using assms(1) by (rule agree_distinct)
  have ne0: "fds \<noteq> []" using assms(2) by auto
  have l: "last fds = fds ! (?n - 1)"
    using ne0 by (simp add: last_conv_nth)
  have neq: "fds ! j = fds ! k \<longleftrightarrow> j = k" if "j < ?n" "k < ?n" for j k
    using d that by (simp add: nth_eq_iff_index_eq)
  have nth: "butlast (fds[i := last fds]) ! j = (if j = i then last fds else fds ! j)"
    if "j < ?n - 1" for j
    using that assms(2) by (simp add: nth_butlast nth_list_update)
  show ?thesis
    unfolding agree_def
  proof (intro conjI allI impI)
    fix j assume "j < length (butlast (fds[i := last fds]))"
    then have j: "j < ?n - 1" by simp
    show "((im(fds ! i := None))(last fds \<mapsto> int i)) (butlast (fds[i := last fds]) ! j)
        = Some (int j)"
    proof (cases "j = i")
      case True
      then show ?thesis using nth[OF j] by simp
    next
      case False
      have a: "fds ! j \<noteq> last fds" unfolding l using j neq[of j "?n - 1"] by simp
      have b: "fds ! j \<noteq> fds ! i" using j assms(2) False neq[of j i] by simp
      have "im (fds ! j) = Some (int j)" using assms(1) j by (simp add: agree_def)
      with a b False show ?thesis using nth[OF j] by simp
    qed
  next
    fix g assume g: "((im(fds ! i := None))(last fds \<mapsto> int i)) g \<noteq> None"
    show "g \<in> set (butlast (fds[i := last fds]))"
    proof (cases "g = last fds")
      case True
      have "i < length (butlast (fds[i := last fds]))" using assms(2) by simp
      moreover have "butlast (fds[i := last fds]) ! i = g"
        using True nth[of i] assms(2) by simp
      ultimately show ?thesis by (metis nth_mem)
    next
      case False
      with g have gi: "g \<noteq> fds ! i" and "im g \<noteq> None" by (auto split: if_splits)
      with assms(1) have "g \<in> set fds" by (simp add: agree_def)
      then obtain k where k: "k < ?n" "fds ! k = g" by (auto simp: in_set_conv_nth)
      with False have "k \<noteq> ?n - 1" unfolding l by auto
      with k have k': "k < ?n - 1" by simp
      from gi k have "k \<noteq> i" by auto
      with nth[OF k'] k have "butlast (fds[i := last fds]) ! k = g" by simp
      moreover have "k < length (butlast (fds[i := last fds]))" using k' by simp
      ultimately show ?thesis by (metis nth_mem)
    qed
  qed
qed

subsection \<open>What the operations do to the array and the map\<close>

lemma length_set_events: "length (set_events i ev l) = length l"
  by (simp add: set_events_def)

lemma map_fd_set_events: "map fd (set_events i ev l) = map fd l"
proof (cases "i < length l")
  case True
  then show ?thesis
    by (simp add: set_events_def map_update list_update_same_conv)
next
  case False
  then have "l[i := (l ! i)\<lparr>events := ev\<rparr>] = l"
    by (intro list_update_beyond) simp
  then show ?thesis by (simp add: set_events_def)
qed

lemma set_events_nth_other: "j \<noteq> i \<Longrightarrow> set_events i ev l ! j = l ! j"
  by (simp add: set_events_def)

lemma slot_fds_nth: "i < length (pollfds ps) \<Longrightarrow> slot_fds ps ! i = fd (pollfds ps ! i)"
  by (simp add: slot_fds_def)

lemma length_slot_fds: "length (slot_fds ps) = length (pollfds ps)"
  by (simp add: slot_fds_def)

lemma registry_inv_lookup:
  assumes "registry_inv ps" "state ps f = Some fs"
  shows "0 \<le> idx fs \<and> nat (idx fs) < length (pollfds ps) \<and> fd (pollfds ps ! nat (idx fs)) = f"
proof -
  from assms(2) have "stored_idx ps f = Some (idx fs)" by (simp add: stored_idx_def)
  from agree_index[OF assms(1)[unfolded registry_inv_def] this]
  have a: "0 \<le> idx fs" "nat (idx fs) < length (pollfds ps)" "slot_fds ps ! nat (idx fs) = f"
    by (simp_all add: length_slot_fds)
  from a(2,3) have "fd (pollfds ps ! nat (idx fs)) = f"
    by (simp add: slot_fds_nth)
  with a show ?thesis by simp
qed

lemma registry_inv_slot:
  assumes "registry_inv ps" "i < length (pollfds ps)"
  shows "\<exists>fs. state ps (fd (pollfds ps ! i)) = Some fs \<and> idx fs = int i"
proof -
  from assms have "stored_idx ps (slot_fds ps ! i) = Some (int i)"
    by (simp add: registry_inv_def agree_def length_slot_fds)
  with assms(2) show ?thesis by (auto simp: stored_idx_def slot_fds_nth)
qed

text \<open>
  \<open>fd_cb_helper\<close> on a pollset that satisfies the invariant: a descriptor without a
  record gets a new last slot, a descriptor with a record keeps its slot. Only the
  interest mask of that slot changes.
\<close>

lemma fd_cb_helper_new:
  assumes "state ps f = None" "fd_cb_helper f op ps = Inr (ps', d)"
  shows "\<exists>ev fs'. pollfds ps'
        = set_events (length (pollfds ps)) ev (pollfds ps @ [\<lparr>fd = f, events = 0, revents = 0\<rparr>])
      \<and> state ps' = (state ps)(f \<mapsto> fs') \<and> idx fs' = int (length (pollfds ps))"
  using assms
  by (auto simp: fd_cb_helper_def new_fd_state_def Let_def split: if_splits)

lemma fd_cb_helper_old:
  assumes "state ps f = Some fs" "0 \<le> idx fs" "fd_cb_helper f op ps = Inr (ps', d)"
  shows "\<exists>ev fs'. pollfds ps' = set_events (nat (idx fs)) ev (pollfds ps)
      \<and> state ps' = (state ps)(f \<mapsto> fs') \<and> idx fs' = idx fs"
  using assms
  by (auto simp: fd_cb_helper_def Let_def split: if_splits)

lemma fd_cb_helper_inv:
  assumes inv: "registry_inv ps" and h: "fd_cb_helper f op ps = Inr (ps', d)"
  shows "registry_inv ps' \<and> state ps' f \<noteq> None
    \<and> (pollfds ps \<noteq> [] \<and> fd (pollfds ps ! 0) \<noteq> f
        \<longrightarrow> pollfds ps' \<noteq> [] \<and> pollfds ps' ! 0 = pollfds ps ! 0)"
proof (cases "state ps f")
  case None
  from fd_cb_helper_new[OF None h] obtain ev fs' where s:
    "pollfds ps' = set_events (length (pollfds ps)) ev
        (pollfds ps @ [\<lparr>fd = f, events = 0, revents = 0\<rparr>])"
    "state ps' = (state ps)(f \<mapsto> fs')" "idx fs' = int (length (pollfds ps))"
    by blast
  have fds: "slot_fds ps' = slot_fds ps @ [f]"
    by (simp add: slot_fds_def s(1) map_fd_set_events)
  have im: "stored_idx ps' = (stored_idx ps)(f \<mapsto> int (length (slot_fds ps)))"
    by (auto simp: stored_idx_def s(2,3) length_slot_fds fun_eq_iff)
  have "stored_idx ps f = None" using None by (simp add: stored_idx_def)
  from agree_append[OF inv[unfolded registry_inv_def] this]
  have 1: "registry_inv ps'" by (simp add: registry_inv_def fds im)
  have 2: "state ps' f \<noteq> None" by (simp add: s(2))
  have 3: "pollfds ps' \<noteq> [] \<and> pollfds ps' ! 0 = pollfds ps ! 0" if "pollfds ps \<noteq> []"
  proof -
    from that have "0 \<noteq> length (pollfds ps)" by simp
    then have "pollfds ps' ! 0 = (pollfds ps @ [\<lparr>fd = f, events = 0, revents = 0\<rparr>]) ! 0"
      unfolding s(1) by (intro set_events_nth_other) simp
    with that show ?thesis
      by (auto simp: nth_append s(1) set_events_def)
  qed
  from 1 2 3 show ?thesis by blast
next
  case (Some fs)
  from registry_inv_lookup[OF inv Some]
  have i: "0 \<le> idx fs" "nat (idx fs) < length (pollfds ps)" "fd (pollfds ps ! nat (idx fs)) = f"
    by simp_all
  from fd_cb_helper_old[OF Some i(1) h] obtain ev fs' where s:
    "pollfds ps' = set_events (nat (idx fs)) ev (pollfds ps)"
    "state ps' = (state ps)(f \<mapsto> fs')" "idx fs' = idx fs"
    by blast
  have fds: "slot_fds ps' = slot_fds ps"
    by (simp add: slot_fds_def s(1) map_fd_set_events)
  have im: "stored_idx ps' = stored_idx ps"
    using Some by (auto simp: stored_idx_def s(2,3) fun_eq_iff)
  have 1: "registry_inv ps'" using inv by (simp add: registry_inv_def fds im)
  have 2: "state ps' f \<noteq> None" by (simp add: s(2))
  have 3: "pollfds ps' \<noteq> [] \<and> pollfds ps' ! 0 = pollfds ps ! 0"
    if "pollfds ps \<noteq> []" "fd (pollfds ps ! 0) \<noteq> f"
  proof -
    from that(2) i(3) have "0 \<noteq> nat (idx fs)" by auto
    then have "pollfds ps' ! 0 = pollfds ps ! 0"
      unfolding s(1) by (rule set_events_nth_other)
    with that(1) show ?thesis by (auto simp: s(1) set_events_def)
  qed
  from 1 2 3 show ?thesis by blast
qed

text \<open>Unregistering changes interest masks and callbacks, nothing else.\<close>

lemma fd_cb_null_shape:
  assumes "state ps f = Some fs" "fd_cb_null f op ps = Inr ps'"
  shows "slot_fds ps' = slot_fds ps \<and> stored_idx ps' = stored_idx ps
    \<and> length (pollfds ps') = length (pollfds ps)
    \<and> (\<forall>j. j \<noteq> nat (idx fs) \<longrightarrow> pollfds ps' ! j = pollfds ps ! j)"
  using assms
  by (auto simp: fd_cb_null_def Let_def slot_fds_def stored_idx_def map_fd_set_events
      set_events_nth_other length_set_events fun_eq_iff split: if_splits)

lemma fd_cb_null_inv:
  assumes inv: "registry_inv ps" and h: "fd_cb_null f op ps = Inr ps'"
  shows "registry_inv ps'
    \<and> (pollfds ps \<noteq> [] \<and> fd (pollfds ps ! 0) \<noteq> f
        \<longrightarrow> pollfds ps' \<noteq> [] \<and> pollfds ps' ! 0 = pollfds ps ! 0)"
proof (cases "state ps f")
  case None
  with h have "ps' = ps" by (simp add: fd_cb_null_def)
  with inv show ?thesis by simp
next
  case (Some fs)
  note sh = fd_cb_null_shape[OF Some h]
  from registry_inv_lookup[OF inv Some]
  have i: "fd (pollfds ps ! nat (idx fs)) = f" by simp
  have 1: "registry_inv ps'" using inv sh by (simp add: registry_inv_def)
  have 2: "pollfds ps' \<noteq> [] \<and> pollfds ps' ! 0 = pollfds ps ! 0"
    if "pollfds ps \<noteq> []" "fd (pollfds ps ! 0) \<noteq> f"
  proof -
    from that(2) i have "0 \<noteq> nat (idx fs)" by auto
    with sh have "pollfds ps' ! 0 = pollfds ps ! 0" by simp
    moreover from sh that(1) have "pollfds ps' \<noteq> []" by (metis length_0_conv)
    ultimately show ?thesis by simp
  qed
  from 1 2 show ?thesis by blast
qed

text \<open>Registering: \<open>fd_cb_helper\<close>, the callback stored, and unregistering if it is empty.\<close>

lemma fd_cb_inv:
  assumes inv: "registry_inv ps"
    and h: "fd_cb f op cb ps = (Inr ps' :: 'x stop + 'cb pollset)"
  shows "registry_inv ps'
    \<and> (pollfds ps \<noteq> [] \<and> fd (pollfds ps ! 0) \<noteq> f
        \<longrightarrow> pollfds ps' \<noteq> [] \<and> pollfds ps' ! 0 = pollfds ps ! 0)"
proof -
  from h obtain ps1 d where
    h1: "fd_cb_helper f op ps = (Inr (ps1, d) :: 'x stop + ('cb pollset \<times> dir))"
    by (auto simp: fd_cb_def split: sum.splits)
  define upd where "upd = (case d of Rd \<Rightarrow> (\<lambda>fs :: 'cb fd_state. fs\<lparr>rcb := cb\<rparr>)
      | Wr \<Rightarrow> (\<lambda>fs. fs\<lparr>wcb := cb\<rparr>))"
  define ps2 where "ps2 = ps1\<lparr>state := (state ps1)(f := map_option upd (state ps1 f))\<rparr>"
  have h2: "(if cb = None then fd_cb_null f op ps2 else Inr ps2)
      = (Inr ps' :: 'x stop + 'cb pollset)"
    using h h1 by (auto simp: fd_cb_def upd_def ps2_def Let_def split: if_splits)
  note a = fd_cb_helper_inv[OF inv h1]
  have iu: "idx (upd fs) = idx fs" for fs
    by (cases d) (simp_all add: upd_def)
  have fds2: "slot_fds ps2 = slot_fds ps1" "pollfds ps2 = pollfds ps1"
    by (simp_all add: ps2_def slot_fds_def)
  have im2: "stored_idx ps2 = stored_idx ps1"
    by (auto simp: ps2_def stored_idx_def fun_eq_iff iu option.map_comp comp_def
        split: option.splits)
  have inv2: "registry_inv ps2"
    using a by (simp add: registry_inv_def fds2 im2)
  show ?thesis
  proof (cases "cb = None")
    case False
    with h2 have "ps' = ps2" by simp
    with inv2 a fds2 show ?thesis by simp
  next
    case True
    with h2 have "fd_cb_null f op ps2 = (Inr ps' :: 'x stop + 'cb pollset)" by simp
    note b = fd_cb_null_inv[OF inv2 this]
    show ?thesis
    proof (intro conjI impI)
      show "registry_inv ps'" using b by simp
    next
      assume c: "pollfds ps \<noteq> [] \<and> fd (pollfds ps ! 0) \<noteq> f"
      with a have 1: "pollfds ps1 \<noteq> []" "pollfds ps1 ! 0 = pollfds ps ! 0" by simp_all
      with c fds2 have "pollfds ps2 \<noteq> [] \<and> fd (pollfds ps2 ! 0) \<noteq> f" by simp
      with b have "pollfds ps' \<noteq> []" "pollfds ps' ! 0 = pollfds ps2 ! 0" by simp_all
      with 1 fds2 show "pollfds ps' \<noteq> []" "pollfds ps' ! 0 = pollfds ps ! 0" by simp_all
    qed
  qed
qed

subsection \<open>Consolidation\<close>

text \<open>
  The first loop keeps the invariant, ends with an empty array or a last slot whose
  mask is not empty, and never pops a slot \<open>0\<close> whose mask is not empty.
\<close>

lemma consolidate_tail_inv:
  "registry_inv ps \<Longrightarrow>
   registry_inv (consolidate_tail ps)
   \<and> (pollfds (consolidate_tail ps) = [] \<or> events (last (pollfds (consolidate_tail ps))) \<noteq> 0)
   \<and> (pollfds ps \<noteq> [] \<and> events (pollfds ps ! 0) \<noteq> 0
       \<longrightarrow> pollfds (consolidate_tail ps) \<noteq> []
           \<and> pollfds (consolidate_tail ps) ! 0 = pollfds ps ! 0)"
proof (induction ps rule: consolidate_tail.induct)
  case (1 ps)
  show ?case
  proof (cases "pollfds ps \<noteq> [] \<and> events (last (pollfds ps)) = 0")
    case False
    then have "consolidate_tail ps = ps"
      by (subst consolidate_tail.simps) auto
    with False "1.prems" show ?thesis by auto
  next
    case True
    define ps1 where "ps1 = ps\<lparr>state := (state ps)(fd (last (pollfds ps)) := None),
        pollfds := butlast (pollfds ps)\<rparr>"
    have ct: "consolidate_tail ps = consolidate_tail ps1"
      using True by (subst consolidate_tail.simps) (simp add: ps1_def)
    have ne: "slot_fds ps \<noteq> []" using True by (simp add: slot_fds_def)
    have fds: "slot_fds ps1 = butlast (slot_fds ps)"
      by (simp add: ps1_def slot_fds_def map_butlast)
    have im: "stored_idx ps1 = (stored_idx ps)(last (slot_fds ps) := None)"
      using True by (auto simp: ps1_def stored_idx_def slot_fds_def last_map fun_eq_iff)
    have inv1: "registry_inv ps1"
      using agree_butlast[OF "1.prems"[unfolded registry_inv_def] ne]
      by (simp add: registry_inv_def fds im)
    have ih: "registry_inv (consolidate_tail ps1)
      \<and> (pollfds (consolidate_tail ps1) = [] \<or> events (last (pollfds (consolidate_tail ps1))) \<noteq> 0)
      \<and> (pollfds ps1 \<noteq> [] \<and> events (pollfds ps1 ! 0) \<noteq> 0
          \<longrightarrow> pollfds (consolidate_tail ps1) \<noteq> []
              \<and> pollfds (consolidate_tail ps1) ! 0 = pollfds ps1 ! 0)"
      using "1.IH"[OF True] inv1 unfolding ps1_def by simp
    have keep: "pollfds ps1 \<noteq> [] \<and> pollfds ps1 ! 0 = pollfds ps ! 0"
      if z: "events (pollfds ps ! 0) \<noteq> 0"
    proof -
      have "length (pollfds ps) \<noteq> 1"
      proof
        assume "length (pollfds ps) = 1"
        then have "last (pollfds ps) = pollfds ps ! 0"
          using True by (simp add: last_conv_nth)
        with True z show False by simp
      qed
      with True have "1 < length (pollfds ps)"
        by (cases "pollfds ps") auto
      then obtain a b r where e: "pollfds ps = a # b # r"
        by (cases "pollfds ps"; cases "tl (pollfds ps)") auto
      show ?thesis by (simp add: ps1_def e)
    qed
    show ?thesis
      unfolding ct using ih keep by auto
  qed
qed

lemma dense_from_mono: "dense_from k ps \<Longrightarrow> k \<le> k' \<Longrightarrow> dense_from k' ps"
  by (simp add: dense_from_def)

text \<open>
  The second loop, entered at \<open>i = k - 1\<close> with \<open>k\<close> below the length of the array
  and no empty mask from slot \<open>k\<close> on: it returns, keeps the invariant, leaves no
  empty mask at all, and keeps a slot \<open>0\<close> whose mask is not empty.
\<close>

lemma consolidate_scan_inv:
  fixes ps :: "'cb pollset"
  assumes "registry_inv ps" "k < length (pollfds ps)" "dense_from k ps"
  shows "\<exists>ps'. consolidate_scan k ps = (Inr ps' :: 'x stop + 'cb pollset)
    \<and> registry_inv ps' \<and> dense_from 0 ps'
    \<and> (events (pollfds ps ! 0) \<noteq> 0
        \<longrightarrow> pollfds ps' \<noteq> [] \<and> pollfds ps' ! 0 = pollfds ps ! 0)"
  using assms
proof (induction k arbitrary: ps)
  case 0
  then show ?case by auto
next
  case (Suc i)
  note inv = Suc.prems(1) and len = Suc.prems(2) and dn = Suc.prems(3)
  let ?n = "length (pollfds ps)"
  have ilt: "i < ?n" using len by simp
  show ?case
  proof (cases "events (pollfds ps ! i) \<noteq> 0")
    case True
    have "dense_from i ps"
      unfolding dense_from_def
    proof (intro allI impI)
      fix j assume j: "i \<le> j \<and> j < ?n"
      show "events (pollfds ps ! j) \<noteq> 0"
      proof (cases "j = i")
        case True
        with \<open>events (pollfds ps ! i) \<noteq> 0\<close> show ?thesis by simp
      next
        case False
        with j dn show ?thesis by (simp add: dense_from_def)
      qed
    qed
    from Suc.IH[OF inv ilt this] True ilt show ?thesis by simp
  next
    case False
    then have ev0: "events (pollfds ps ! i) = 0" by simp
    define g where "g = fd (pollfds ps ! i)"
    define pfd where "pfd = last (pollfds ps)"
    define h where "h = fd pfd"
    have ne: "pollfds ps \<noteq> []" using len by auto
    have pfd_nth: "pfd = pollfds ps ! (?n - 1)"
      using ne by (simp add: pfd_def last_conv_nth)
    from registry_inv_slot[OF inv, of "?n - 1"] ne obtain fs where
      fs: "state ps h = Some fs" "idx fs = int (?n - 1)"
      by (auto simp: h_def pfd_nth)
    have d: "distinct (slot_fds ps)"
      using inv by (simp add: registry_inv_def agree_distinct)
    have hg: "h \<noteq> g"
    proof
      assume "h = g"
      then have "slot_fds ps ! (?n - 1) = slot_fds ps ! i"
        using ilt ne by (simp add: slot_fds_nth h_def g_def pfd_nth)
      with d ilt ne have "?n - 1 = i"
        by (simp add: nth_eq_iff_index_eq length_slot_fds)
      with len show False by simp
    qed
    define ps3 where "ps3 = ps\<lparr>state := ((state ps)(g := None))(h \<mapsto> fs\<lparr>idx := int i\<rparr>),
        pollfds := butlast ((pollfds ps)[i := pfd])\<rparr>"
    have step: "consolidate_scan (Suc i) ps = (consolidate_scan i ps3 :: 'x stop + 'cb pollset)"
      using ilt ev0 fs hg
      by (simp add: Let_def ps3_def g_def[symmetric] pfd_def[symmetric] h_def[symmetric])
    have fds: "slot_fds ps3 = butlast ((slot_fds ps)[i := last (slot_fds ps)])"
      using ne by (simp add: ps3_def slot_fds_def map_butlast map_update last_map pfd_def)
    have im: "stored_idx ps3
        = ((stored_idx ps)(slot_fds ps ! i := None))(last (slot_fds ps) \<mapsto> int i)"
      using ne ilt
      by (auto simp: ps3_def stored_idx_def slot_fds_def last_map fun_eq_iff g_def h_def pfd_def)
    have "Suc i < length (slot_fds ps)" using len by (simp add: length_slot_fds)
    from agree_move_last[OF inv[unfolded registry_inv_def] this]
    have inv3: "registry_inv ps3" by (simp add: registry_inv_def fds im)
    have len3: "length (pollfds ps3) = ?n - 1" by (simp add: ps3_def)
    have nth3: "pollfds ps3 ! j = (if j = i then pfd else pollfds ps ! j)" if "j < ?n - 1" for j
      using that ilt by (simp add: ps3_def nth_butlast nth_list_update)
    have i3: "i < length (pollfds ps3)" using len len3 by simp
    have last_ev: "events pfd \<noteq> 0"
      using dn len ne unfolding pfd_nth dense_from_def by simp
    have dn3: "dense_from i ps3"
      unfolding dense_from_def
    proof (intro allI impI)
      fix j assume j: "i \<le> j \<and> j < length (pollfds ps3)"
      then have j': "j < ?n - 1" using len3 by simp
      show "events (pollfds ps3 ! j) \<noteq> 0"
      proof (cases "j = i")
        case True
        with nth3[OF j'] last_ev show ?thesis by simp
      next
        case False
        with j j' have "Suc i \<le> j \<and> j < ?n" by simp
        with dn have "events (pollfds ps ! j) \<noteq> 0" by (simp add: dense_from_def)
        with False nth3[OF j'] show ?thesis by simp
      qed
    qed
    from Suc.IH[OF inv3 i3 dn3] obtain ps' where r:
      "consolidate_scan i ps3 = (Inr ps' :: 'x stop + 'cb pollset)"
      "registry_inv ps'" "dense_from 0 ps'"
      "events (pollfds ps3 ! 0) \<noteq> 0 \<longrightarrow> pollfds ps' \<noteq> [] \<and> pollfds ps' ! 0 = pollfds ps3 ! 0"
      by blast
    have keep: "pollfds ps' \<noteq> [] \<and> pollfds ps' ! 0 = pollfds ps ! 0"
      if z: "events (pollfds ps ! 0) \<noteq> 0"
    proof -
      have "i \<noteq> 0"
      proof
        assume "i = 0"
        with z ev0 show False by simp
      qed
      moreover have "0 < ?n - 1" using len by simp
      ultimately have "pollfds ps3 ! 0 = pollfds ps ! 0" using nth3[of 0] by simp
      with z r(4) show ?thesis by simp
    qed
    show ?thesis
      unfolding step using r(1,2,3) keep by auto
  qed
qed

text \<open>
  \<open>consolidate\<close> returns on every pollset that satisfies the invariant; afterwards
  the invariant holds, no slot has an empty mask, and a slot \<open>0\<close> whose mask was not
  empty is where it was.
\<close>

lemma consolidate_inv:
  fixes ps :: "'cb pollset"
  assumes "registry_inv ps"
  shows "\<exists>ps'. consolidate ps = (Inr ps' :: 'x stop + 'cb pollset)
    \<and> registry_inv ps' \<and> dense_from 0 ps'
    \<and> (pollfds ps \<noteq> [] \<and> events (pollfds ps ! 0) \<noteq> 0
        \<longrightarrow> pollfds ps' \<noteq> [] \<and> pollfds ps' ! 0 = pollfds ps ! 0)"
proof -
  define ps1 where "ps1 = consolidate_tail ps"
  from consolidate_tail_inv[OF assms] have t:
    "registry_inv ps1" "pollfds ps1 = [] \<or> events (last (pollfds ps1)) \<noteq> 0"
    "pollfds ps \<noteq> [] \<and> events (pollfds ps ! 0) \<noteq> 0
       \<longrightarrow> pollfds ps1 \<noteq> [] \<and> pollfds ps1 ! 0 = pollfds ps ! 0"
    by (simp_all add: ps1_def)
  show ?thesis
  proof (cases "length (pollfds ps1) < 2")
    case True
    then have c: "consolidate ps = (Inr ps1 :: 'x stop + 'cb pollset)"
      by (simp add: consolidate_def ps1_def Let_def)
    have "dense_from 0 ps1"
      unfolding dense_from_def
    proof (intro allI impI)
      fix j assume "0 \<le> j \<and> j < length (pollfds ps1)"
      with True have j: "j = 0" "length (pollfds ps1) = 1" by auto
      then have "last (pollfds ps1) = pollfds ps1 ! 0"
        by (cases "pollfds ps1") auto
      with t(2) j show "events (pollfds ps1 ! j) \<noteq> 0" by auto
    qed
    with c t show ?thesis by auto
  next
    case False
    let ?n = "length (pollfds ps1)"
    from False have c: "consolidate ps
        = (consolidate_scan (?n - 1) ps1 :: 'x stop + 'cb pollset)"
      by (simp add: consolidate_def ps1_def Let_def)
    have k: "?n - 1 < ?n" using False by simp
    have ne: "pollfds ps1 \<noteq> []" using False by auto
    have "dense_from (?n - 1) ps1"
      unfolding dense_from_def
    proof (intro allI impI)
      fix j assume "?n - 1 \<le> j \<and> j < ?n"
      then have "j = ?n - 1" by arith
      with t(2) ne show "events (pollfds ps1 ! j) \<noteq> 0"
        by (simp add: last_conv_nth)
    qed
    from consolidate_scan_inv[OF t(1) k this, where ?'x = 'x] obtain ps' where r:
      "consolidate_scan (?n - 1) ps1 = (Inr ps' :: 'x stop + 'cb pollset)"
      "registry_inv ps'" "dense_from 0 ps'"
      "events (pollfds ps1 ! 0) \<noteq> 0 \<longrightarrow> pollfds ps' \<noteq> [] \<and> pollfds ps' ! 0 = pollfds ps1 ! 0"
      by blast
    show ?thesis
      unfolding c using r t(3) by auto
  qed
qed

subsection \<open>Runs of the registry\<close>

lemma registry_inv_ctor:
  "pollset_ctor (r, w) d = (Inr ps0 :: 'x stop + 'cb pollset)
   \<Longrightarrow> registry_inv ps0 \<and> pollfds ps0 = [\<lparr>fd = r, events = POLLIN, revents = 0\<rparr>]"
  by (auto simp: pollset_ctor_value registry_inv_def agree_def slot_fds_def stored_idx_def
      empty_pollset_def split: if_splits)

text \<open>
  A run that names no descriptor equal to the read end of the self-pipe keeps the
  invariant and leaves slot \<open>0\<close> as the constructor made it.
\<close>

lemma run_reg_ops_inv:
  fixes ps :: "'cb pollset"
  assumes "registry_inv ps" "pollfds ps \<noteq> []"
    and "pollfds ps ! 0 = \<lparr>fd = r, events = POLLIN, revents = 0\<rparr>"
    and "\<forall>x \<in> set ops. reg_op_fd x \<noteq> Some r"
    and "run_reg_ops ops ps = (Inr ps' :: 'x stop + 'cb pollset)"
  shows "registry_inv ps' \<and> pollfds ps' \<noteq> []
    \<and> pollfds ps' ! 0 = \<lparr>fd = r, events = POLLIN, revents = 0\<rparr>"
  using assms
proof (induction ops arbitrary: ps)
  case Nil
  then show ?case by simp
next
  case (Cons x xs)
  from Cons.prems(5) obtain ps1 where
    a: "apply_reg_op x ps = (Inr ps1 :: 'x stop + 'cb pollset)"
    and b: "run_reg_ops xs ps1 = (Inr ps' :: 'x stop + 'cb pollset)"
    by (auto split: sum.splits)
  have p0: "fd (pollfds ps ! 0) = r" "events (pollfds ps ! 0) \<noteq> 0"
    using Cons.prems(3) by (simp_all add: POLLIN_def)
  have "registry_inv ps1 \<and> pollfds ps1 \<noteq> [] \<and> pollfds ps1 ! 0 = pollfds ps ! 0"
  proof (cases x)
    case (Register f op cb)
    with Cons.prems(4) have "f \<noteq> r" by auto
    with fd_cb_inv[OF Cons.prems(1), of f op cb ps1, where ?'x = 'x] a Register
      Cons.prems(2) p0
    show ?thesis by auto
  next
    case (Unregister f op)
    with Cons.prems(4) have "f \<noteq> r" by auto
    with fd_cb_null_inv[OF Cons.prems(1), of f op ps1, where ?'b = 'x] a Unregister
      Cons.prems(2) p0
    show ?thesis by auto
  next
    case Consolidate
    with consolidate_inv[OF Cons.prems(1), where ?'x = 'x] a Cons.prems(2) p0
    show ?thesis by auto
  qed
  with Cons.prems(3) have "registry_inv ps1" "pollfds ps1 \<noteq> []"
    "pollfds ps1 ! 0 = \<lparr>fd = r, events = POLLIN, revents = 0\<rparr>"
    by simp_all
  from Cons.IH[OF this _ b] Cons.prems(4) show ?case by simp
qed

text \<open>
  The claim C5 is about all sequences of register and unregister operations. One
  that unregisters the read end of the self-pipe (descriptor 3 here) empties the
  mask of slot \<open>0\<close>, and \<open>consolidate\<close> moves the last slot there: slot \<open>0\<close> then holds
  descriptor 9.
\<close>

theorem consolidate_moves_slot0_counterexample:
  "(case (pollset_ctor (3, 4) (0 :: nat) :: unit stop + nat pollset) of
      Inl e \<Rightarrow> False
    | Inr ps0 \<Rightarrow>
        (case (run_reg_ops [Register 9 kReadFlag (Some 5), Unregister 3 kReadFlag] ps0
                :: unit stop + nat pollset) of
           Inl e \<Rightarrow> False
         | Inr ps \<Rightarrow>
             (case (consolidate ps :: unit stop + nat pollset) of
                Inl e \<Rightarrow> False
              | Inr ps' \<Rightarrow> map fd (pollfds ps') = [9])))"
  by (simp add: pollset_ctor_value empty_pollset_def fd_cb_def fd_cb_helper_def fd_cb_null_def
      new_fd_state_def set_events_def consolidate_def consolidate_tail.simps
      kReadFlag_def kWriteFlag_def kOnceFlag_def POLLIN_def POLLOUT_def Let_def)

text \<open>
  Claim C5, amended. Take the pollset that the constructor builds, with the read
  end \<open>r\<close> of the self-pipe in slot \<open>0\<close>, and any sequence of register and
  unregister calls and consolidation passes that returns and names no descriptor
  equal to \<open>r\<close>. Then \<open>consolidate\<close> returns, and afterwards no slot (slot \<open>0\<close>
  included) has an empty interest mask, slot \<open>0\<close> holds \<open>r\<close>, the index stored in
  every record is the position of the record's descriptor in the array, and every
  slot has its record.
\<close>

theorem consolidate_dense_and_indexed:
  fixes ops :: "'cb reg_op list"
  assumes "pollset_ctor (r, w) drain = (Inr ps0 :: 'x stop + 'cb pollset)"
    and "\<forall>x \<in> set ops. reg_op_fd x \<noteq> Some r"
    and "run_reg_ops ops ps0 = (Inr ps :: 'x stop + 'cb pollset)"
  shows "\<exists>ps'. consolidate ps = (Inr ps' :: 'x stop + 'cb pollset)
    \<and> (\<forall>p \<in> set (pollfds ps'). events p \<noteq> 0)
    \<and> pollfds ps' \<noteq> [] \<and> fd (pollfds ps' ! 0) = r
    \<and> (\<forall>f fs. state ps' f = Some fs
          \<longrightarrow> 0 \<le> idx fs \<and> nat (idx fs) < length (pollfds ps')
              \<and> fd (pollfds ps' ! nat (idx fs)) = f)
    \<and> (\<forall>i < length (pollfds ps').
          \<exists>fs. state ps' (fd (pollfds ps' ! i)) = Some fs \<and> idx fs = int i)"
proof -
  from registry_inv_ctor[OF assms(1)] have
    i0: "registry_inv ps0" "pollfds ps0 \<noteq> []"
      "pollfds ps0 ! 0 = \<lparr>fd = r, events = POLLIN, revents = 0\<rparr>"
    by simp_all
  from run_reg_ops_inv[OF i0 assms(2,3)] have
    i: "registry_inv ps" "pollfds ps \<noteq> []"
      "pollfds ps ! 0 = \<lparr>fd = r, events = POLLIN, revents = 0\<rparr>"
    by simp_all
  have e0: "events (pollfds ps ! 0) \<noteq> 0" using i(3) by (simp add: POLLIN_def)
  from consolidate_inv[OF i(1), where ?'x = 'x] i(2) e0 obtain ps' where r:
    "consolidate ps = (Inr ps' :: 'x stop + 'cb pollset)" "registry_inv ps'" "dense_from 0 ps'"
    "pollfds ps' \<noteq> []" "pollfds ps' ! 0 = pollfds ps ! 0"
    by blast
  have 1: "\<forall>p \<in> set (pollfds ps'). events p \<noteq> 0"
    using r(3) by (auto simp: dense_from_def in_set_conv_nth)
  have 2: "fd (pollfds ps' ! 0) = r" using r(5) i(3) by simp
  have 3: "\<forall>f fs. state ps' f = Some fs
          \<longrightarrow> 0 \<le> idx fs \<and> nat (idx fs) < length (pollfds ps')
              \<and> fd (pollfds ps' ! nat (idx fs)) = f"
    using registry_inv_lookup[OF r(2)] by blast
  have 4: "\<forall>i < length (pollfds ps').
          \<exists>fs. state ps' (fd (pollfds ps' ! i)) = Some fs \<and> idx fs = int i"
    using registry_inv_slot[OF r(2)] by blast
  from r(1,4) 1 2 3 4 show ?thesis by blast
qed

theorem consolidate_dense_and_indexed_witness:
  "\<exists>ps0 ps ps'.
     pollset_ctor (3, 4) (0 :: nat) = (Inr ps0 :: unit stop + nat pollset)
     \<and> run_reg_ops [Register 9 1 (Some 5), Register 7 6 (Some 6), Unregister 9 1] ps0
         = (Inr ps :: unit stop + nat pollset)
     \<and> map fd (pollfds ps) = [3, 9, 7]
     \<and> consolidate ps = (Inr ps' :: unit stop + nat pollset)
     \<and> pollfds ps' \<noteq> [] \<and> fd (pollfds ps' ! 0) = 3
     \<and> (\<exists>fs. state ps' (fd (pollfds ps' ! 0)) = Some fs \<and> idx fs = 0)"
proof -
  let ?ops = "[Register 9 1 (Some 5), Register 7 6 (Some 6), Unregister 9 1] :: nat reg_op list"
  define ps0 :: "nat pollset" where "ps0 = (empty_pollset (3, 4))
       \<lparr>pollfds := [\<lparr>fd = 3, events = POLLIN, revents = 0\<rparr>],
        pollfds_storage := 1,
        state := [3 \<mapsto> \<lparr>rcb = Some 0, wcb = None, idx = 0, roneshot = False,
                          woneshot = False\<rparr>]\<rparr>"
  have c: "pollset_ctor (3, 4) (0 :: nat) = (Inr ps0 :: unit stop + nat pollset)"
    by (simp add: pollset_ctor_value ps0_def)
  have "\<exists>ps. run_reg_ops ?ops ps0 = (Inr ps :: unit stop + nat pollset)
      \<and> map fd (pollfds ps) = [3, 9, 7]"
    by (simp add: ps0_def empty_pollset_def fd_cb_def fd_cb_helper_def fd_cb_null_def
        new_fd_state_def set_events_def
        kReadFlag_def kWriteFlag_def kOnceFlag_def POLLIN_def POLLOUT_def Let_def)
  then obtain ps where run: "run_reg_ops ?ops ps0 = (Inr ps :: unit stop + nat pollset)"
    and fds: "map fd (pollfds ps) = [3, 9, 7]"
    by auto
  have ok: "\<forall>x \<in> set ?ops. reg_op_fd x \<noteq> Some 3" by simp
  from consolidate_dense_and_indexed[OF c ok run] obtain ps' where r:
    "consolidate ps = (Inr ps' :: unit stop + nat pollset)"
    "pollfds ps' \<noteq> []" "fd (pollfds ps' ! 0) = 3"
    "\<forall>i < length (pollfds ps').
        \<exists>fs. state ps' (fd (pollfds ps' ! i)) = Some fs \<and> idx fs = int i"
    by blast
  from r(2) have "0 < length (pollfds ps')" by simp
  from r(4)[rule_format, OF this]
  have "\<exists>fs. state ps' (fd (pollfds ps' ! 0)) = Some fs \<and> idx fs = int 0" .
  then have z: "\<exists>fs. state ps' (fd (pollfds ps' ! 0)) = Some fs \<and> idx fs = 0"
    by simp
  show ?thesis
    by (intro exI[of _ ps0] exI[of _ ps] exI[of _ ps'] conjI c run fds r(1) r(2) r(3) z)
qed

section \<open>Timer queue: the wait handed to the OS\<close>

lemma sint_sub_no_overflow:
  fixes a b :: "64 word"
  assumes "- (2 ^ 63) \<le> sint a - sint b" "sint a - sint b < 2 ^ 63"
  shows "sint (a - b) = sint a - sint b"
  using assms by (simp add: sint_word_ariths signed_take_bit_int_eq_self)

lemma sint_ucast_small:
  fixes w :: "64 word"
  assumes "0 \<le> sint w" "sint w < 2 ^ 31"
  shows "sint (ucast w :: 32 word) = sint w"
proof -
  have lt: "sint w < 2 ^ 64"
    using assms(2) by simp
  have "take_bit 64 (sint w) = sint w"
    using assms(1) lt by (rule take_bit_int_eq_self)
  then have u: "uint w = sint w"
    by (simp add: uint_sint)
  have ge: "- (2 ^ 31) \<le> sint w"
    using assms(1) by simp
  have "sint (ucast w :: 32 word) = sint (word_of_int (uint w) :: 32 word)"
    by (simp only: ucast_eq)
  also have "\<dots> = signed_take_bit (LENGTH(32) - 1) (uint w)"
    by (rule sint_sbintrunc')
  also have "\<dots> = signed_take_bit 31 (uint w)"
    by simp
  also have "\<dots> = sint w"
    unfolding u using ge assms(2) by (rule signed_take_bit_int_eq_self)
  finally show ?thesis .
qed

lemma sint_INT_MAX: "sint INT_MAX = 2 ^ 31 - 1"
  by (simp add: INT_MAX_def)

lemma sint_range64: "- (2 ^ 63) \<le> sint (w :: 64 word)" "sint (w :: 64 word) < 2 ^ 63"
  using sint_ge[of w] sint_lt[of w] by simp_all

lemma sint_range32: "- (2 ^ 31) \<le> sint (w :: 32 word)" "sint (w :: 32 word) < 2 ^ 31"
  using sint_ge[of w] sint_lt[of w] by simp_all

text \<open>The third case of \<open>next_timeout\<close>: the earliest deadline lies ahead.\<close>

lemma next_timeout_ahead:
  assumes q: "time_cbs ps = (first, n, c) # q"
    and ahead: "sint now < sint first"
    and ok: "sint first - sint now < 2 ^ 63"
  shows "\<exists>r. next_timeout now ms ps = (Inr r :: 'x stop + 32 word)
    \<and> sint r = (if sint ms < 0 then min (sint first - sint now) (2 ^ 31 - 1)
                else min (sint ms) (min (sint first - sint now) (2 ^ 31 - 1)))"
proof -
  let ?d = "sint first - sint now"
  have d: "sint (first - now) = ?d"
    using ahead ok by (intro sint_sub_no_overflow) simp_all
  define wait where "wait = (if sint (first - now) > sint INT_MAX then INT_MAX else first - now)"
  have w: "sint wait = min ?d (2 ^ 31 - 1)"
    by (simp add: wait_def d sint_INT_MAX min_def)
  have wpos: "0 \<le> sint wait" "sint wait < 2 ^ 31"
    using ahead unfolding w by simp_all
  have nt: "next_timeout now ms ps =
      (if sint ms \<ge> 0 \<and> sint ms \<le> sint wait then Inr ms else Inr (ucast wait))"
    using ahead ok by (simp add: next_timeout_def q wait_def Let_def)
  show ?thesis
  proof (cases "sint ms \<ge> 0 \<and> sint ms \<le> sint wait")
    case True
    have "next_timeout now ms ps = Inr ms"
      unfolding nt by (rule if_P[OF True])
    moreover have "(if sint ms < 0 then min ?d (2 ^ 31 - 1)
        else min (sint ms) (min ?d (2 ^ 31 - 1))) = sint ms"
      using True unfolding w by simp
    ultimately show ?thesis by (intro exI[of _ ms]) simp
  next
    case False
    have r: "next_timeout now ms ps = Inr (ucast wait)"
      unfolding nt by (rule if_not_P[OF False])
    have s: "sint (ucast wait :: 32 word) = min ?d (2 ^ 31 - 1)"
      using sint_ucast_small[OF wpos] w by simp
    from False have "sint ms < 0 \<or> sint wait < sint ms" by auto
    then have "(if sint ms < 0 then min ?d (2 ^ 31 - 1) else min (sint ms) (min ?d (2 ^ 31 - 1)))
        = min ?d (2 ^ 31 - 1)"
      unfolding w by auto
    with r s show ?thesis by (intro exI[of _ "ucast wait"]) simp
  qed
qed

text \<open>
  Claim C6. \<open>next_timeout\<close> returns \<open>ms\<close> itself when the queue is empty and \<open>0\<close>
  when the first (earliest) deadline is not after \<open>now\<close>. Otherwise it returns the
  smaller of \<open>ms\<close> and the time until that deadline, capped at \<open>2^31 - 1\<close>, and just
  the capped time when \<open>ms\<close> is negative; this holds whenever \<open>now\<close> is not negative
  (and for a negative \<open>now\<close> as long as the time until the deadline is an
  \<^verbatim>\<open>int64_t\<close>). With \<open>now\<close> not negative the function always returns. The first
  record of a sorted queue has the earliest deadline.
\<close>

theorem next_timeout_cases:
  "(time_cbs ps = [] \<longrightarrow> next_timeout now ms ps = (Inr ms :: 'x stop + 32 word))
   \<and> (time_cbs ps = (first, n, c) # q \<and> sint first \<le> sint now
        \<longrightarrow> next_timeout now ms ps = (Inr 0 :: 'x stop + 32 word))
   \<and> (time_cbs ps = (first, n, c) # q \<and> sint now < sint first
          \<and> (0 \<le> sint now \<or> sint first - sint now < 2 ^ 63)
        \<longrightarrow> (\<exists>r. next_timeout now ms ps = (Inr r :: 'x stop + 32 word)
              \<and> sint r = (if sint ms < 0 then min (sint first - sint now) (2 ^ 31 - 1)
                          else min (sint ms) (min (sint first - sint now) (2 ^ 31 - 1)))))
   \<and> (0 \<le> sint now \<longrightarrow> (\<exists>r. next_timeout now ms ps = (Inr r :: 'x stop + 32 word)))
   \<and> (time_cbs ps = (first, n, c) # q \<and> mm_sorted (time_cbs ps)
        \<longrightarrow> (\<forall>t \<in> set (time_cbs ps). sint first \<le> sint (fst t)))"
proof -
  have A: "time_cbs ps = [] \<longrightarrow> next_timeout now ms ps = (Inr ms :: 'x stop + 32 word)"
    by (simp add: next_timeout_def)
  have B: "time_cbs ps = (first, n, c) # q \<and> sint first \<le> sint now
      \<longrightarrow> next_timeout now ms ps = (Inr 0 :: 'x stop + 32 word)"
    by (simp add: next_timeout_def)
  have C: "time_cbs ps = (first, n, c) # q \<and> sint now < sint first
          \<and> (0 \<le> sint now \<or> sint first - sint now < 2 ^ 63)
        \<longrightarrow> (\<exists>r. next_timeout now ms ps = (Inr r :: 'x stop + 32 word)
              \<and> sint r = (if sint ms < 0 then min (sint first - sint now) (2 ^ 31 - 1)
                          else min (sint ms) (min (sint first - sint now) (2 ^ 31 - 1))))"
  proof
    assume h: "time_cbs ps = (first, n, c) # q \<and> sint now < sint first
          \<and> (0 \<le> sint now \<or> sint first - sint now < 2 ^ 63)"
    have "sint first - sint now < 2 ^ 63"
      using h sint_range64(2)[of first] by linarith
    with h next_timeout_ahead[of ps first n c q now ms, where ?'x = 'x]
    show "\<exists>r. next_timeout now ms ps = (Inr r :: 'x stop + 32 word)
              \<and> sint r = (if sint ms < 0 then min (sint first - sint now) (2 ^ 31 - 1)
                          else min (sint ms) (min (sint first - sint now) (2 ^ 31 - 1)))"
      by blast
  qed
  have D: "0 \<le> sint now \<longrightarrow> (\<exists>r. next_timeout now ms ps = (Inr r :: 'x stop + 32 word))"
  proof
    assume nn: "0 \<le> sint now"
    show "\<exists>r. next_timeout now ms ps = (Inr r :: 'x stop + 32 word)"
    proof (cases "time_cbs ps")
      case Nil
      then show ?thesis by (simp add: next_timeout_def)
    next
      case (Cons t q')
      obtain f' n' c' where t: "t = (f', n', c')" by (cases t)
      show ?thesis
      proof (cases "sint f' \<le> sint now")
        case True
        then show ?thesis by (simp add: next_timeout_def Cons t)
      next
        case False
        have "sint f' - sint now < 2 ^ 63"
          using nn sint_range64(2)[of f'] by linarith
        with False next_timeout_ahead[of ps f' n' c' q' now ms] Cons t
        show ?thesis by auto
      qed
    qed
  qed
  have E: "time_cbs ps = (first, n, c) # q \<and> mm_sorted (time_cbs ps)
        \<longrightarrow> (\<forall>t \<in> set (time_cbs ps). sint first \<le> sint (fst t))"
  proof (intro impI ballI)
    fix t assume h: "time_cbs ps = (first, n, c) # q \<and> mm_sorted (time_cbs ps)"
      and t: "t \<in> set (time_cbs ps)"
    from h have e: "time_cbs ps = (first, n, c) # q" and m: "mm_sorted (time_cbs ps)"
      by blast+
    from m have "mm_sorted ((first, n, c) # q)" unfolding e .
    moreover from t have "t \<in> set ((first, n, c) # q)" unfolding e .
    ultimately have "sint (fst (first, n, c)) \<le> sint (fst t)" by (rule mm_sorted_head)
    then show "sint first \<le> sint (fst t)" by simp
  qed
  from A B C D E show ?thesis by blast
qed


theorem next_timeout_cases_witness:
  "next_timeout 1000 (- 1) (empty_pollset (3, 4) :: nat pollset) = (Inr (- 1) :: unit stop + 32 word)
   \<and> next_timeout 1000 50 ((empty_pollset (3, 4) :: nat pollset)\<lparr>time_cbs := [(900, 0, 7)]\<rparr>)
        = (Inr 0 :: unit stop + 32 word)
   \<and> (\<exists>r. next_timeout 1000 50 ((empty_pollset (3, 4) :: nat pollset)\<lparr>time_cbs := [(1020, 0, 7)]\<rparr>)
          = (Inr r :: unit stop + 32 word) \<and> sint r = 20)
   \<and> (\<exists>r. next_timeout 1000 (- 1)
            ((empty_pollset (3, 4) :: nat pollset)\<lparr>time_cbs := [(0x7FFFFFFFFFFF, 0, 7)]\<rparr>)
          = (Inr r :: unit stop + 32 word) \<and> sint r = 2147483647)
   \<and> (\<exists>r. next_timeout 1000 50
            ((empty_pollset (3, 4) :: nat pollset)\<lparr>time_cbs := [(900, 0, 7), (1500, 1, 8)]\<rparr>)
          = (Inr r :: unit stop + 32 word))
   \<and> sint (900 :: 64 word) \<le> sint (fst ((1500, 1, 8) :: nat timer))"
proof -
  let ?e = "empty_pollset (3, 4) :: nat pollset"
  have a: "next_timeout 1000 (- 1) ?e = (Inr (- 1) :: unit stop + 32 word)"
    using next_timeout_cases[where ?'x = unit and ps = ?e and now = 1000 and ms = "- 1"]
    by (simp add: empty_pollset_def)
  have b: "next_timeout 1000 50 (?e\<lparr>time_cbs := [(900, 0, 7)]\<rparr>) = (Inr 0 :: unit stop + 32 word)"
    using next_timeout_cases[where ?'x = unit and ps = "?e\<lparr>time_cbs := [(900, 0, 7)]\<rparr>" and now = 1000
        and ms = 50 and first = 900 and n = 0 and c = 7 and q = "[]"]
    by simp
  have c: "\<exists>r. next_timeout 1000 50 (?e\<lparr>time_cbs := [(1020, 0, 7)]\<rparr>)
      = (Inr r :: unit stop + 32 word) \<and> sint r = 20"
    using next_timeout_cases[where ?'x = unit and ps = "?e\<lparr>time_cbs := [(1020, 0, 7)]\<rparr>" and now = 1000
        and ms = 50 and first = 1020 and n = 0 and c = 7 and q = "[]"]
    by simp
  have d: "\<exists>r. next_timeout 1000 (- 1) (?e\<lparr>time_cbs := [(0x7FFFFFFFFFFF, 0, 7)]\<rparr>)
      = (Inr r :: unit stop + 32 word) \<and> sint r = 2147483647"
    using next_timeout_cases[where ?'x = unit and ps = "?e\<lparr>time_cbs := [(0x7FFFFFFFFFFF, 0, 7)]\<rparr>"
        and now = 1000 and ms = "- 1" and first = "0x7FFFFFFFFFFF" and n = 0 and c = 7
        and q = "[]"]
    by simp
  note t = next_timeout_cases[where ?'x = unit
      and ps = "?e\<lparr>time_cbs := [(900, 0, 7), (1500, 1, 8)]\<rparr>" and now = 1000 and ms = 50
      and first = 900 and n = 0 and c = 7 and q = "[(1500, 1, 8)]"]
  from t have e: "\<exists>r. next_timeout 1000 50 (?e\<lparr>time_cbs := [(900, 0, 7), (1500, 1, 8)]\<rparr>)
      = (Inr r :: unit stop + 32 word)"
    by simp
  have "mm_sorted [(900 :: 64 word, 0 :: nat, 7 :: nat), (1500, 1, 8)]"
    by (simp add: mm_sorted_def)
  with t have "\<forall>t \<in> set [(900 :: 64 word, 0 :: nat, 7 :: nat), (1500, 1, 8)].
      sint (900 :: 64 word) \<le> sint (fst t)"
    by simp
  then have f: "sint (900 :: 64 word) \<le> sint (fst ((1500, 1, 8) :: nat timer))"
    by simp
  show ?thesis
    by (intro conjI a b c d e f)
qed

section \<open>Async inbox: what \<open>inject_cb_vec\<close> does with a callback\<close>

text \<open>
  Claim C7 and the code. The claim has every injection append its callback and
  write a wake byte when the pending-wake flag was not set. \<open>inject_cb_vec\<close> does
  neither for a range that holds a callback: it writes through \<^verbatim>\<open>async_cbs_.end()\<close>,
  where the behaviour is undefined, before it looks at the flag. Only the empty
  range returns, with the pollset as it was.
\<close>

theorem inject_cb_vec_does_not_append:
  "(inject_cb_vec (c # cs) ps :: 'x stop + 'cb pollset) = Inl Undefined
   \<and> (inject_cb_vec [] ps :: 'x stop + 'cb pollset) = Inr ps"
  by (simp add: inject_cb_vec_def move_to_end_def)

section \<open>Dispatch of a ready slot\<close>








section \<open>Marshalling: padded copies round-trip\<close>

lemma and3: "(n::nat) AND 3 = n mod 4"
  using take_bit_eq_mask[of 2 n] by (simp add: take_bit_eq_mod mask_eq_exp_minus_1)

lemma npad_zero: "len mod 4 = 0 \<Longrightarrow> npad len = 0"
  by (simp add: npad_def)

lemma mod4_cases:
  fixes len :: nat
  obtains "len mod 4 = 0" | "len mod 4 = 1" | "len mod 4 = 2" | "len mod 4 = 3"
proof -
  have "len mod 4 < 4" by simp
  then show ?thesis using that by linarith
qed

lemma npad_step: "len mod 4 \<noteq> 0 \<Longrightarrow> npad len = Suc (npad (Suc len))"
  by (cases len rule: mod4_cases) (simp_all add: npad_def mod_Suc)

lemma npad_lt: "npad len < 4"
  by (simp add: npad_def)

lemma npad_aligned: "(len + npad len) mod 4 = 0"
proof -
  have m: "(len + k) mod 4 = (len mod 4 + k) mod 4" for k
    by (simp add: mod_add_left_eq)
  show ?thesis
    by (cases len rule: mod4_cases) (simp_all add: m npad_def mod_Suc)
qed

lemma npad_boundary: "len + npad len = (len + 3) div 4 * 4"
proof -
  obtain q where q: "len + npad len = 4 * q"
    using npad_aligned[of len] by (auto simp: mod_eq_0_iff_dvd elim: dvdE)
  have "4 * q \<le> len + 3" "len + 3 < 4 * q + 4"
    using q npad_lt[of len] by linarith+
  then have "(len + 3) div 4 = q"
    by (intro div_nat_eqI) (simp_all add: mult.commute)
  with q show ?thesis by simp
qed

lemma memcpy_to_at:
  "memcpy_to m p bs a = (if p \<le> a \<and> a < p + length bs then bs ! (a - p) else m a)"
proof (induction bs arbitrary: m p)
  case Nil
  then show ?case by auto
next
  case (Cons b bs)
  have ih: "memcpy_to (m(p := b)) (Suc p) bs a =
      (if Suc p \<le> a \<and> a < Suc p + length bs then bs ! (a - Suc p) else (m(p := b)) a)"
    by (rule Cons.IH)
  consider "a < p" | "a = p" | "p < a" by arith
  then show ?case
  proof cases
    case 1
    with ih show ?thesis by simp
  next
    case 2
    with ih show ?thesis by simp
  next
    case 3
    then have "a - p = Suc (a - Suc p)" by arith
    with 3 ih show ?thesis by simp
  qed
qed

lemma memcpy_from_to: "memcpy_from (memcpy_to m p bs) p (length bs) = bs"
  by (rule nth_equalityI) (simp_all add: memcpy_from_def memcpy_to_at)

lemma put_pad_eq:
  "put_pad m p len = ((\<lambda>a. if p \<le> a \<and> a < p + npad len then 0 else m a), p + npad len)"
proof (induction m p len rule: put_pad.induct)
  case (1 m p len)
  show ?case
  proof (cases "len mod 4 = 0")
    case True
    then show ?thesis by (subst put_pad.simps) (auto simp: and3 npad_zero fun_eq_iff)
  next
    case False
    then have st: "npad len = Suc (npad (Suc len))" by (rule npad_step)
    from False have "put_pad m p len = put_pad (m(p := 0)) (p + 1) (len + 1)"
      by (subst put_pad.simps) (simp add: and3)
    also have "\<dots> = ((\<lambda>a. if p + 1 \<le> a \<and> a < p + 1 + npad (len + 1) then 0 else (m(p := 0)) a),
                       p + 1 + npad (len + 1))"
      using False by (intro "1.IH") (simp add: and3)
    also have "\<dots> = ((\<lambda>a. if p \<le> a \<and> a < p + npad len then 0 else m a), p + npad len)"
      by (auto simp: st fun_eq_iff)
    finally show ?thesis .
  qed
qed

lemma get_pad_eq:
  "get_pad m p len =
     (if \<exists>i<npad len. m (p + i) \<noteq> 0 then Inl xdr_should_be_zero else Inr (p + npad len))"
proof (induction m p len rule: get_pad.induct)
  case (1 m p len)
  show ?case
  proof (cases "len mod 4 = 0")
    case True
    then show ?thesis by (subst get_pad.simps) (simp add: and3 npad_zero)
  next
    case False
    then have st: "npad len = Suc (npad (Suc len))" by (rule npad_step)
    show ?thesis
    proof (cases "m p = 0")
      case nz: False
      have "\<exists>i<npad len. m (p + i) \<noteq> 0"
        using nz st by (intro exI[of _ 0]) simp
      moreover have "get_pad m p len = Inl xdr_should_be_zero"
        using False nz by (subst get_pad.simps) (simp add: and3)
      ultimately show ?thesis by simp
    next
      case z: True
      have "get_pad m p len = get_pad m (p + 1) (len + 1)"
        using False z by (subst get_pad.simps) (simp add: and3)
      also have "\<dots> = (if \<exists>i<npad (len + 1). m (p + 1 + i) \<noteq> 0 then Inl xdr_should_be_zero
                        else Inr (p + 1 + npad (len + 1)))"
        using False z by (intro "1.IH") (simp_all add: and3)
      also have "(\<exists>i<npad (len + 1). m (p + 1 + i) \<noteq> 0) = (\<exists>i<npad len. m (p + i) \<noteq> 0)"
      proof
        assume "\<exists>i<npad (len + 1). m (p + 1 + i) \<noteq> 0"
        then obtain i where "i < npad (len + 1)" "m (p + 1 + i) \<noteq> 0" by blast
        then show "\<exists>i<npad len. m (p + i) \<noteq> 0"
          using st by (intro exI[of _ "Suc i"]) simp
      next
        assume "\<exists>i<npad len. m (p + i) \<noteq> 0"
        then obtain i where i: "i < npad len" "m (p + i) \<noteq> 0" by blast
        with z obtain j where "i = Suc j" by (cases i) auto
        with i show "\<exists>i<npad (len + 1). m (p + 1 + i) \<noteq> 0"
          using st by (intro exI[of _ j]) simp
      qed
      finally show ?thesis by (simp add: st)
    qed
  qed
qed

text \<open>
  Claim C9. \<open>put_bytes\<close> writes the \<open>N\<close> bytes, then zero bytes up to the next multiple
  of four, and leaves the cursor there (nothing else in memory changes); \<open>get_bytes\<close>
  of the same length at the same place gives the bytes back and stops at the same
  cursor. On any memory, \<open>get_bytes\<close> throws exactly when one of the pad bytes is not
  zero, and otherwise returns the \<open>N\<close> bytes with the cursor past the padding.
\<close>

theorem marshal_roundtrip:
  "(case put_bytes m pr buf of (m', pr') \<Rightarrow>
      pr' = pr + (length buf + 3) div 4 * 4
    \<and> memcpy_from m' pr (length buf) = buf
    \<and> (\<forall>a. pr + length buf \<le> a \<and> a < pr' \<longrightarrow> m' a = 0)
    \<and> (\<forall>a. a < pr \<or> pr' \<le> a \<longrightarrow> m' a = m a)
    \<and> get_bytes m' pr (length buf) = Inr (buf, pr'))
   \<and> ((\<exists>e. get_bytes m0 pr n = Inl e)
        \<longleftrightarrow> (\<exists>a. pr + n \<le> a \<and> a < pr + (n + 3) div 4 * 4 \<and> m0 a \<noteq> 0))
   \<and> ((\<exists>e. get_bytes m0 pr n = Inl e)
        \<or> get_bytes m0 pr n = Inr (memcpy_from m0 pr n, pr + (n + 3) div 4 * 4))"
proof -
  let ?k = "npad (length buf)"
  let ?m1 = "memcpy_to m pr buf"
  let ?m' = "\<lambda>a. if pr + length buf \<le> a \<and> a < pr + length buf + ?k then 0 else ?m1 a"
  have pb: "put_bytes m pr buf = (?m', pr + length buf + ?k)"
    by (simp add: put_bytes_def put_pad_eq Let_def)
  have e: "pr + length buf + ?k = pr + (length buf + 3) div 4 * 4"
    using npad_boundary[of "length buf"] by simp
  have rd: "memcpy_from ?m' pr (length buf) = buf"
    by (rule nth_equalityI) (simp_all add: memcpy_from_def memcpy_to_at)
  have gp: "get_pad ?m' (pr + length buf) (length buf) = Inr (pr + length buf + ?k)"
    by (simp add: get_pad_eq)
  have gb: "get_bytes ?m' pr (length buf) = Inr (buf, pr + length buf + ?k)"
    by (simp add: get_bytes_def gp rd)
  have out: "\<forall>a. a < pr \<or> pr + length buf + ?k \<le> a \<longrightarrow> ?m' a = m a"
    by (auto simp: memcpy_to_at)
  have A: "(case put_bytes m pr buf of (m', pr') \<Rightarrow>
      pr' = pr + (length buf + 3) div 4 * 4
    \<and> memcpy_from m' pr (length buf) = buf
    \<and> (\<forall>a. pr + length buf \<le> a \<and> a < pr' \<longrightarrow> m' a = 0)
    \<and> (\<forall>a. a < pr \<or> pr' \<le> a \<longrightarrow> m' a = m a)
    \<and> get_bytes m' pr (length buf) = Inr (buf, pr'))"
    unfolding pb using e rd gb out by simp
  have e2: "pr + n + npad n = pr + (n + 3) div 4 * 4"
    using npad_boundary[of n] by simp
  have ex: "(\<exists>i<npad n. m0 (pr + n + i) \<noteq> 0)
        \<longleftrightarrow> (\<exists>a. pr + n \<le> a \<and> a < pr + n + npad n \<and> m0 a \<noteq> 0)"
  proof
    assume "\<exists>i<npad n. m0 (pr + n + i) \<noteq> 0"
    then obtain i where "i < npad n" "m0 (pr + n + i) \<noteq> 0" by blast
    then show "\<exists>a. pr + n \<le> a \<and> a < pr + n + npad n \<and> m0 a \<noteq> 0"
      by (intro exI[of _ "pr + n + i"]) simp
  next
    assume "\<exists>a. pr + n \<le> a \<and> a < pr + n + npad n \<and> m0 a \<noteq> 0"
    then obtain a where a: "pr + n \<le> a" "a < pr + n + npad n" "m0 a \<noteq> 0" by blast
    then show "\<exists>i<npad n. m0 (pr + n + i) \<noteq> 0"
      by (intro exI[of _ "a - (pr + n)"]) simp
  qed
  have B: "(\<exists>e. get_bytes m0 pr n = Inl e)
        \<longleftrightarrow> (\<exists>a. pr + n \<le> a \<and> a < pr + (n + 3) div 4 * 4 \<and> m0 a \<noteq> 0)"
    unfolding e2[symmetric] ex[symmetric] by (auto simp: get_bytes_def get_pad_eq Let_def)
  have C: "(\<exists>e. get_bytes m0 pr n = Inl e)
        \<or> get_bytes m0 pr n = Inr (memcpy_from m0 pr n, pr + (n + 3) div 4 * 4)"
    unfolding e2[symmetric] by (auto simp: get_bytes_def get_pad_eq Let_def)
  from A B C show ?thesis by blast
qed

theorem marshal_roundtrip_witness:
  "snd (put_bytes (\<lambda>_. 7) 8 [1, 2, 3, 4, 5]) = 16
   \<and> fst (put_bytes (\<lambda>_. 7) 8 [1, 2, 3, 4, 5]) 13 = 0
   \<and> fst (put_bytes (\<lambda>_. 7) 8 [1, 2, 3, 4, 5]) 16 = 7
   \<and> get_bytes (fst (put_bytes (\<lambda>_. 7) 8 [1, 2, 3, 4, 5])) 8 5 = Inr ([1, 2, 3, 4, 5], 16)
   \<and> (\<exists>e. get_bytes ((\<lambda>_. 0)(14 := 1)) 8 5 = Inl e)"
proof -
  have l: "length [1, 2, 3, 4, 5 :: byte] = 5" by simp
  note t = marshal_roundtrip[where m = "\<lambda>_. 7" and pr = 8 and buf = "[1, 2, 3, 4, 5]"
      and ?m0.0 = "(\<lambda>_. 0)(14 := 1)" and n = 5, unfolded l]
  obtain m' pr' where p: "put_bytes (\<lambda>_. 7) 8 [1, 2, 3, 4, 5] = (m', pr')"
    by (cases "put_bytes (\<lambda>_. 7) 8 [1, 2, 3, 4, 5]")
  from t p have a: "pr' = 16" by simp
  from t p have z: "\<forall>a. 13 \<le> a \<and> a < pr' \<longrightarrow> m' a = 0" by simp
  from t p have o: "\<forall>a. a < 8 \<or> pr' \<le> a \<longrightarrow> m' a = (7 :: byte)" by simp
  from t p have g: "get_bytes m' 8 5 = Inr ([1, 2, 3, 4, 5], pr')" by simp
  have "(\<exists>a. (8::nat) + 5 \<le> a \<and> a < 8 + (5 + 3) div 4 * 4
      \<and> ((\<lambda>_. 0)(14 := (1::byte))) a \<noteq> 0)"
    by (intro exI[of _ 14]) simp
  with t have e: "\<exists>e. get_bytes ((\<lambda>_. 0)(14 := 1)) 8 5 = Inl e" by simp
  from z a have "m' 13 = 0" by simp
  moreover from o a have "m' 16 = 7" by simp
  ultimately show ?thesis using p a g e by simp
qed

section \<open>Timer handles: cancelling and rescheduling\<close>

text \<open>
  Claim C10. \<open>timeout_cancel\<close> on the null handle returns with nothing changed.
  \<open>timeout_reschedule_at\<close> has no such test: on the null handle, and on a handle
  whose record is no longer in the queue, it dereferences an invalid iterator, which
  is undefined. On a handle whose record is in the queue it returns a handle to a
  new record, which holds the callback at the new deadline (node numbers in use
  lie below the next one to be allocated).
\<close>

theorem timeout_reschedule_at_needs_handle:
  "timeout_cancel timeout_null ps = (Inr (ps, timeout_null) :: 'x stop + ('cb pollset \<times> iter))
   \<and> timeout_reschedule_at timeout_null ms ps = (Inl Undefined :: 'x stop + ('cb pollset \<times> iter))
   \<and> (mm_deref n (time_cbs ps) = None
        \<longrightarrow> timeout_reschedule_at (Node n) ms ps
              = (Inl Undefined :: 'x stop + ('cb pollset \<times> iter)))
   \<and> (mm_deref n (time_cbs ps) = Some (k, c)
          \<and> (\<forall>j \<in> (\<lambda>(k, n', c). n') ` set (time_cbs ps). j < next_node ps)
        \<longrightarrow> (\<exists>ps' n'. timeout_reschedule_at (Node n) ms ps
                  = (Inr (ps', Node n') :: 'x stop + ('cb pollset \<times> iter))
              \<and> mm_deref n' (time_cbs ps') = Some (ms, c)))"
proof -
  have A: "timeout_cancel timeout_null ps = (Inr (ps, timeout_null) :: 'x stop + ('cb pollset \<times> iter))"
    by (simp add: timeout_cancel_def timeout_is_not_null_def timeout_null_def)
  have B: "timeout_reschedule_at timeout_null ms ps
      = (Inl Undefined :: 'x stop + ('cb pollset \<times> iter))"
    by (simp add: timeout_reschedule_at_def timeout_null_def)
  have C: "mm_deref n (time_cbs ps) = None
      \<longrightarrow> timeout_reschedule_at (Node n) ms ps
            = (Inl Undefined :: 'x stop + ('cb pollset \<times> iter))"
    by (simp add: timeout_reschedule_at_def)
  have D: "mm_deref n (time_cbs ps) = Some (k, c)
          \<and> (\<forall>j \<in> (\<lambda>(k, n', c). n') ` set (time_cbs ps). j < next_node ps)
        \<longrightarrow> (\<exists>ps' n'. timeout_reschedule_at (Node n) ms ps
                  = (Inr (ps', Node n') :: 'x stop + ('cb pollset \<times> iter))
              \<and> mm_deref n' (time_cbs ps') = Some (ms, c))"
  proof
    assume h: "mm_deref n (time_cbs ps) = Some (k, c)
          \<and> (\<forall>j \<in> (\<lambda>(k, n', c). n') ` set (time_cbs ps). j < next_node ps)"
    let ?n' = "next_node ps"
    let ?q = "mm_emplace ms ?n' c (time_cbs ps)"
    let ?ps' = "ps\<lparr>time_cbs := mm_erase n ?q, next_node := Suc ?n'\<rparr>"
    from h have fresh: "mm_deref ?n' (time_cbs ps) = None"
      unfolding mm_deref_None_iff by blast
    from h have "(k, n, c) \<in> set (time_cbs ps)"
      by (simp add: mm_deref_key_in_set)
    with h have "n < ?n'" by force
    then have ne: "?n' \<noteq> n" by simp
    have r: "timeout_reschedule_at (Node n) ms ps
        = (Inr (?ps', Node ?n') :: 'x stop + ('cb pollset \<times> iter))"
      using h by (simp add: timeout_reschedule_at_def Let_def)
    have "mm_deref ?n' (time_cbs ?ps') = Some (ms, c)"
      using ne fresh by (simp add: mm_deref_erase_other mm_deref_emplace_same)
    with r show "\<exists>ps' n'. timeout_reschedule_at (Node n) ms ps
                  = (Inr (ps', Node n') :: 'x stop + ('cb pollset \<times> iter))
              \<and> mm_deref n' (time_cbs ps') = Some (ms, c)"
      by blast
  qed
  from A B C D show ?thesis by blast
qed

theorem timeout_reschedule_at_needs_handle_witness:
  "timeout_cancel End ((empty_pollset (3, 4) :: nat pollset)\<lparr>time_cbs := [(50, 0, 7)], next_node := 1\<rparr>)
     = (Inr ((empty_pollset (3, 4))\<lparr>time_cbs := [(50, 0, 7)], next_node := 1\<rparr>, End)
          :: unit stop + (nat pollset \<times> iter))
   \<and> timeout_reschedule_at End 90
       ((empty_pollset (3, 4) :: nat pollset)\<lparr>time_cbs := [(50, 0, 7)], next_node := 1\<rparr>)
     = (Inl Undefined :: unit stop + (nat pollset \<times> iter))
   \<and> timeout_reschedule_at (Node 5) 90
       ((empty_pollset (3, 4) :: nat pollset)\<lparr>time_cbs := [(50, 0, 7)], next_node := 1\<rparr>)
     = (Inl Undefined :: unit stop + (nat pollset \<times> iter))
   \<and> (\<exists>ps' n'. timeout_reschedule_at (Node 0) 90
         ((empty_pollset (3, 4) :: nat pollset)\<lparr>time_cbs := [(50, 0, 7)], next_node := 1\<rparr>)
       = (Inr (ps', Node n') :: unit stop + (nat pollset \<times> iter))
       \<and> mm_deref n' (time_cbs ps') = Some (90, 7))"
proof -
  let ?ps = "(empty_pollset (3, 4) :: nat pollset)\<lparr>time_cbs := [(50, 0, 7)], next_node := 1\<rparr>"
  note t = timeout_reschedule_at_needs_handle[where ?'x = unit and ps = ?ps and ms = 90]
  have a: "timeout_cancel End ?ps = (Inr (?ps, End) :: unit stop + (nat pollset \<times> iter))"
    using t[of 5 50 7] by (simp add: timeout_null_def)
  have b: "timeout_reschedule_at End 90 ?ps = (Inl Undefined :: unit stop + (nat pollset \<times> iter))"
    using t[of 5 50 7] by (simp add: timeout_null_def)
  have c: "timeout_reschedule_at (Node 5) 90 ?ps
      = (Inl Undefined :: unit stop + (nat pollset \<times> iter))"
    using t[of 5 50 7] by simp
  have d: "\<exists>ps' n'. timeout_reschedule_at (Node 0) 90 ?ps
       = (Inr (ps', Node n') :: unit stop + (nat pollset \<times> iter))
       \<and> mm_deref n' (time_cbs ps') = Some (90, 7)"
    using t[of 0 50 7] by simp
  from a b c d show ?thesis by blast
qed

end
